theory Spec2Isabelle
  imports Complex_Main
begin

section \<open>Request scheduler: the \<open>RateLimiter\<close> class\<close>

text \<open>
  The scheduler runs on a single-threaded event loop. A state of the model is what the
  program holds between two synchronous turns of that loop; an event is one turn: a
  call of a public method, the settling of an operation's promise (the continuation of
  \<open>executeRequest\<close> after its \<open>await\<close>), or the firing of a timer registered with
  \<open>setTimeout\<close>.

  JavaScript values, as far as the two components handle them, are kept in a small
  datatype: strings, integers, booleans, \<open>null\<close>, \<open>new Error(m)\<close> as
  \<open>JError m\<close>, and objects as lists of properties.
\<close>

datatype jsval =
    JStr string
  | JNum int
  | JBool bool
  | JNull
  | JError string
  | JObject "(string \<times> jsval) list"

datatype outcome = Fulfilled jsval | Rejected jsval

text \<open>
  \<open>interface RequestQueue\<close>: the record of one submission. The three closures
  \<open>request\<close>, \<open>resolve\<close> and \<open>reject\<close> belong to one call of \<open>addRequest\<close>; the model
  names that call by its \<open>ticket\<close>, the number of calls of \<open>addRequest\<close> made before
  it. The \<open>id\<close> given by the caller (field \<open>rid\<close>) may repeat.
\<close>

record RequestQueue =
  rid :: string
  ticket :: nat

text \<open>
  What a pending timer does when it fires: \<open>ResumeLoop\<close> continues the dispatch loop
  suspended at \<open>await this.delay(this.requestDelay)\<close>; \<open>CallProcessQueue\<close> is the
  callback \<open>() => this.processQueue()\<close> registered by \<open>executeRequest\<close>.
\<close>

datatype continuation = ResumeLoop | CallProcessQueue

type_synonym timer = "rat \<times> continuation"

text \<open>
  The five private fields of the class, followed by what the model needs of its
  surroundings: the timers registered and not yet fired (with the milliseconds asked
  for), the operations invoked so far in the order of their invocation, the promises
  returned by \<open>addRequest\<close> that have been settled (ticket and outcome, in the order
  of settling), and the number of calls of \<open>addRequest\<close> so far.
  The two settings are TypeScript numbers, modelled as rationals so that
  \<open>requestDelay / 2\<close> is exact and a fractional ceiling can be written;
  \<open>activeRequests\<close> only ever changes by \<open>++\<close> and \<open>--\<close> from 0 and is an integer.
\<close>

record RateLimiter =
  queue :: "RequestQueue list"
  isProcessing :: bool
  requestDelay :: rat
  maxConcurrent :: rat
  activeRequests :: int
  timers :: "timer list"
  launched :: "RequestQueue list"
  settlements :: "(nat \<times> outcome) list"
  nextTicket :: nat

text \<open>The field initialisers of the class (source lines 16 to 20), nothing having happened yet.\<close>

definition RateLimiter_new :: RateLimiter where
  "RateLimiter_new =
     \<lparr>queue = [], isProcessing = False, requestDelay = 200, maxConcurrent = 3,
      activeRequests = 0, timers = [], launched = [], settlements = [], nextTicket = 0\<rparr>"

text \<open>
  \<open>item.resolve(v)\<close> and \<open>item.reject(e)\<close>: settling the promise that \<open>addRequest\<close>
  returned. A promise that is already settled ignores further calls.
\<close>

definition settled :: "RateLimiter \<Rightarrow> nat \<Rightarrow> outcome option" where
  "settled s t = map_of (settlements s) t"

definition settle :: "nat \<Rightarrow> outcome \<Rightarrow> RateLimiter \<Rightarrow> RateLimiter" where
  "settle t out s =
     (if settled s t = None then s\<lparr>settlements := settlements s @ [(t, out)]\<rparr> else s)"

text \<open>\<open>setTimeout(callback, ms)\<close>: the timer is registered; nothing runs yet.\<close>

definition setTimeout :: "continuation \<Rightarrow> rat \<Rightarrow> RateLimiter \<Rightarrow> RateLimiter" where
  "setTimeout k ms s = s\<lparr>timers := timers s @ [(ms, k)]\<rparr>"

text \<open>
  \<open>executeRequest\<close> up to its \<open>await\<close>: the operation \<open>item.request()\<close> is invoked,
  in the same synchronous turn as the call of \<open>executeRequest\<close>. The operation is taken
  to do what its type says, to return a promise; it does not call back into the
  scheduler while it is being invoked.
\<close>

definition executeRequest :: "RequestQueue \<Rightarrow> RateLimiter \<Rightarrow> RateLimiter" where
  "executeRequest item s = s\<lparr>launched := launched s @ [item]\<rparr>"

text \<open>
  \<open>executeRequest\<close> after its \<open>await\<close>, once the operation's promise has settled
  with \<open>out\<close>: the \<open>try\<close> branch resolves the caller's promise with the result, the
  \<open>catch\<close> branch rejects it with the error, and \<open>finally\<close> decrements the counter and
  registers the timer that will call \<open>processQueue\<close>.
\<close>

definition executeRequest_settled :: "RequestQueue \<Rightarrow> outcome \<Rightarrow> RateLimiter \<Rightarrow> RateLimiter" where
  "executeRequest_settled item out s =
     (let s1 = (case out of
                  Fulfilled result \<Rightarrow> settle (ticket item) (Fulfilled result) s
                | Rejected error \<Rightarrow> settle (ticket item) (Rejected error) s);
          s2 = s1\<lparr>activeRequests := activeRequests s1 - 1\<rparr>
      in setTimeout CallProcessQueue (requestDelay s2 / 2) s2)"

text \<open>
  \<open>delay(ms)\<close> returns a promise that a timer resolves; the loop that awaits it is
  suspended until that timer fires.
\<close>

definition delay :: "rat \<Rightarrow> RateLimiter \<Rightarrow> RateLimiter" where
  "delay ms s = setTimeout ResumeLoop ms s"

text \<open>
  The \<open>while\<close> loop of \<open>processQueue\<close>, from its condition to the point where the
  turn ends: either the loop suspends at \<open>await this.delay(this.requestDelay)\<close>, which
  registers a \<open>ResumeLoop\<close> timer, or it leaves the loop and clears \<open>isProcessing\<close>.
  \<open>queue.shift()\<close> returns \<open>undefined\<close> on an empty array, where the source breaks
  out of the loop.
\<close>

function processQueue_loop :: "RateLimiter \<Rightarrow> RateLimiter" where
  "processQueue_loop s =
     (if queue s \<noteq> [] \<and> of_int (activeRequests s) < maxConcurrent s then
        (case queue s of
           [] \<Rightarrow> s\<lparr>isProcessing := False\<rparr>
         | item # rest \<Rightarrow>
             (let s1 = s\<lparr>queue := rest\<rparr>;
                  s2 = s1\<lparr>activeRequests := activeRequests s1 + 1\<rparr>;
                  s3 = executeRequest item s2
              in if queue s3 \<noteq> [] then delay (requestDelay s3) s3
                 else processQueue_loop s3))
      else s\<lparr>isProcessing := False\<rparr>)"
  by pat_completeness auto
termination
  by (relation "measure (\<lambda>s. length (queue s))") (auto simp: executeRequest_def)

declare processQueue_loop.simps [simp del]

definition processQueue :: "RateLimiter \<Rightarrow> RateLimiter" where
  "processQueue s =
     (if isProcessing s \<or> length (queue s) = 0 \<or> of_int (activeRequests s) \<ge> maxConcurrent s
      then s
      else processQueue_loop (s\<lparr>isProcessing := True\<rparr>))"

text \<open>
  \<open>addRequest\<close>: the executor of \<open>new Promise\<close> runs inside the call; it pushes the
  item and calls \<open>processQueue\<close>, whose body runs up to its first \<open>await\<close> before
  \<open>addRequest\<close> returns.
\<close>

definition addRequest :: "string \<Rightarrow> RateLimiter \<Rightarrow> RateLimiter" where
  "addRequest i s =
     processQueue
       (s\<lparr>queue := queue s @ [\<lparr>rid = i, ticket = nextTicket s\<rparr>],
          nextTicket := Suc (nextTicket s)\<rparr>)"

text \<open>\<open>getStatus\<close> returns the snapshot and the state it leaves behind.\<close>

record Status =
  queueLength :: nat
  st_activeRequests :: int
  st_isProcessing :: bool

definition getStatus :: "RateLimiter \<Rightarrow> Status \<times> RateLimiter" where
  "getStatus s =
     (\<lparr>queueLength = length (queue s), st_activeRequests = activeRequests s,
       st_isProcessing = isProcessing s\<rparr>, s)"

text \<open>\<open>clearQueue\<close>: \<open>forEach\<close> over the pending items, then a fresh empty array.\<close>

definition clearQueue :: "RateLimiter \<Rightarrow> RateLimiter" where
  "clearQueue s =
     (fold (\<lambda>item. settle (ticket item) (Rejected (JError ''Request cancelled''))) (queue s) s)\<lparr>queue := []\<rparr>"

text \<open>
  \<open>updateSettings\<close>: a field that is absent (or \<open>undefined\<close>) is \<open>None\<close>.
\<close>

record Settings =
  set_requestDelay :: "rat option"
  set_maxConcurrent :: "rat option"

definition updateSettings :: "Settings \<Rightarrow> RateLimiter \<Rightarrow> RateLimiter" where
  "updateSettings settings s =
     (let s1 = (case set_requestDelay settings of
                  Some d \<Rightarrow> s\<lparr>requestDelay := d\<rparr> | None \<Rightarrow> s)
      in (case set_maxConcurrent settings of
            Some m \<Rightarrow> s1\<lparr>maxConcurrent := m\<rparr> | None \<Rightarrow> s1))"

subsection \<open>Events and runs\<close>

text \<open>
  One turn of the event loop. \<open>OperationSettles t out\<close>: the promise of the operation
  submitted with ticket \<open>t\<close> settles with \<open>out\<close>; this can only happen to an operation
  that has been invoked and whose continuation has not run yet. \<open>TimerFires i\<close>: the
  \<open>i\<close>-th pending timer fires. The model lets timers fire in any order and at any
  moment after their registration, which includes every order real time allows.
\<close>

datatype event =
    AddRequest string
  | ClearQueue
  | UpdateSettings Settings
  | OperationSettles nat outcome
  | TimerFires nat

definition in_flight :: "RateLimiter \<Rightarrow> RequestQueue list" where
  "in_flight s = filter (\<lambda>item. settled s (ticket item) = None) (launched s)"

definition timerFires :: "nat \<Rightarrow> RateLimiter \<Rightarrow> RateLimiter" where
  "timerFires i s =
     (if i < length (timers s) then
        (let s1 = s\<lparr>timers := take i (timers s) @ drop (Suc i) (timers s)\<rparr>
         in case snd (timers s ! i) of
              ResumeLoop \<Rightarrow> processQueue_loop s1
            | CallProcessQueue \<Rightarrow> processQueue s1)
      else s)"

definition operationSettles :: "nat \<Rightarrow> outcome \<Rightarrow> RateLimiter \<Rightarrow> RateLimiter" where
  "operationSettles t out s =
     (case find (\<lambda>item. ticket item = t) (in_flight s) of
        Some item \<Rightarrow> executeRequest_settled item out s
      | None \<Rightarrow> s)"

fun step :: "event \<Rightarrow> RateLimiter \<Rightarrow> RateLimiter" where
  "step (AddRequest i) s = addRequest i s"
| "step ClearQueue s = clearQueue s"
| "step (UpdateSettings settings) s = updateSettings settings s"
| "step (OperationSettles t out) s = operationSettles t out s"
| "step (TimerFires i) s = timerFires i s"

fun run :: "event list \<Rightarrow> RateLimiter \<Rightarrow> RateLimiter" where
  "run [] s = s"
| "run (e # es) s = run es (step e s)"

section \<open>Entity URL navigator: the \<open>useEntityUrlNavigation\<close> hook\<close>

subsection \<open>The platform functions the hook calls\<close>

text \<open>
  The hook reads the query string with the browser's \<open>URLSearchParams\<close> and converts
  the \<open>id\<close> with \<open>parseInt\<close>. Neither is code of the repository; both are written
  out here after their standards (the form-urlencoded parser of the URL standard, and
  \<open>parseInt\<close> of ECMAScript with the radix left out) so that the hook can be run on
  a query string. Strings are sequences of bytes: a percent escape decodes to one byte,
  and of the white space that \<open>parseInt\<close> skips only the ASCII characters are
  covered. \<open>parseInt\<close> returns \<open>None\<close> for \<open>NaN\<close> and otherwise the integer
  it read, exactly; the rounding of a JavaScript number above \<open>2^53\<close> is not
  modelled.
\<close>

definition hex_value :: "char \<Rightarrow> nat option" where
  "hex_value c =
     (let n = of_char c :: nat in
      if 48 \<le> n \<and> n \<le> 57 then Some (n - 48)
      else if 65 \<le> n \<and> n \<le> 70 then Some (n - 55)
      else if 97 \<le> n \<and> n \<le> 102 then Some (n - 87)
      else None)"

fun percent_decode :: "string \<Rightarrow> string" where
  "percent_decode [] = []"
| "percent_decode [c] = [c]"
| "percent_decode [c, d] = [c, d]"
| "percent_decode (c # h1 # h2 # rest) =
     (if c = CHR ''%'' then
        (case (hex_value h1, hex_value h2) of
           (Some a, Some b) \<Rightarrow> char_of (16 * a + b) # percent_decode rest
         | _ \<Rightarrow> c # percent_decode (h1 # h2 # rest))
      else c # percent_decode (h1 # h2 # rest))"

fun split_on :: "char \<Rightarrow> string \<Rightarrow> string list" where
  "split_on sep [] = [[]]"
| "split_on sep (c # cs) =
     (if c = sep then [] # split_on sep cs
      else (case split_on sep cs of
              [] \<Rightarrow> [[c]]
            | piece # pieces \<Rightarrow> (c # piece) # pieces))"

definition plus_to_space :: "string \<Rightarrow> string" where
  "plus_to_space = map (\<lambda>c. if c = CHR ''+'' then CHR '' '' else c)"

definition parse_pair :: "string \<Rightarrow> string \<times> string" where
  "parse_pair bytes =
     (percent_decode (plus_to_space (takeWhile (\<lambda>c. c \<noteq> CHR ''='') bytes)),
      percent_decode (plus_to_space (drop 1 (dropWhile (\<lambda>c. c \<noteq> CHR ''='') bytes))))"

text \<open>
  \<open>new URLSearchParams(init)\<close> drops one leading question mark, splits at every
  ampersand, skips empty pieces and splits each piece at its first equals sign.
  \<open>get(name)\<close> returns the value of the first pair with that name, or \<open>null\<close>.
\<close>

definition URLSearchParams :: "string \<Rightarrow> (string \<times> string) list" where
  "URLSearchParams init =
     (let input = (case init of c # cs \<Rightarrow> if c = CHR ''?'' then cs else init | [] \<Rightarrow> [])
      in map parse_pair (filter (\<lambda>bytes. bytes \<noteq> []) (split_on CHR ''&'' input)))"

definition searchParams_get :: "(string \<times> string) list \<Rightarrow> string \<Rightarrow> string option" where
  "searchParams_get params name = map_of params name"

text \<open>
  \<open>parseInt(string)\<close>: leading white space and one sign are skipped, a prefix
  \<open>0x\<close> or \<open>0X\<close> selects radix 16, and the longest run of digits of the radix
  is the number; with no digit the result is \<open>NaN\<close>.
\<close>

definition is_white_space :: "char \<Rightarrow> bool" where
  "is_white_space c = (of_char c \<in> {9, 10, 11, 12, 13, 32 :: nat})"

definition digit_value :: "nat \<Rightarrow> char \<Rightarrow> nat option" where
  "digit_value radix c =
     (case hex_value c of
        Some d \<Rightarrow> if d < radix then Some d else None
      | None \<Rightarrow> None)"

definition digits_value :: "nat \<Rightarrow> string \<Rightarrow> nat" where
  "digits_value radix z =
     foldl (\<lambda>acc c. acc * radix + (case digit_value radix c of Some d \<Rightarrow> d | None \<Rightarrow> 0)) 0 z"

definition parseInt :: "string \<Rightarrow> int option" where
  "parseInt inputString =
     (let s = dropWhile is_white_space inputString;
          sign = (case s of c # _ \<Rightarrow> if c = CHR ''-'' then - 1 else 1 | [] \<Rightarrow> (1::int));
          s = (case s of c # cs \<Rightarrow> if c = CHR ''+'' \<or> c = CHR ''-'' then cs else s | [] \<Rightarrow> s);
          hex = (case s of a # b # _ \<Rightarrow> a = CHR ''0'' \<and> (b = CHR ''x'' \<or> b = CHR ''X'') | _ \<Rightarrow> False);
          radix = (if hex then 16 else 10);
          s = (if hex then drop 2 s else s);
          z = takeWhile (\<lambda>c. digit_value radix c \<noteq> None) s
      in if z = [] then None else Some (sign * int (digits_value radix z)))"

subsection \<open>The hook\<close>

text \<open>
  \<open>ToBoolean\<close> of ECMAScript, which decides \<open>if\<close> and \<open>&&\<close>: the empty
  string, zero, \<open>false\<close> and \<open>null\<close> are falsy, errors and objects are truthy.
\<close>

fun ToBoolean :: "jsval \<Rightarrow> bool" where
  "ToBoolean (JStr s) = (s \<noteq> [])"
| "ToBoolean (JNum n) = (n \<noteq> 0)"
| "ToBoolean (JBool b) = b"
| "ToBoolean JNull = False"
| "ToBoolean (JError m) = True"
| "ToBoolean (JObject properties) = True"

text \<open>
  \<open>EntityUrlNavigationConfig<T>\<close>. The fetch function answers with a promise of
  \<open>{success, data?}\<close>; the model gives, for each argument, how that promise ends:
  it resolves with a response, it rejects, or it never settles. An exception thrown by
  \<open>getEntityById\<close> itself is caught by the same \<open>try\<close> as a rejection and is not
  told apart from it. A \<open>data\<close> that is absent is \<open>None\<close>. A callback either
  returns or throws; \<open>onAdditionalAction\<close> is optional.
\<close>

record response =
  success :: bool
  data :: "jsval option"

datatype fetch = Resolves response | Rejects jsval | Unsettled

datatype completion = Returns | Throws jsval

record EntityUrlNavigationConfig =
  getEntityById :: "int option \<Rightarrow> fetch"
  onEntityLoaded :: "jsval \<Rightarrow> completion"
  onAdditionalAction :: "(jsval \<Rightarrow> int option \<Rightarrow> completion) option"

text \<open>
  What one run of the effect does that can be seen from outside, in order: the calls
  of the three functions of the configuration, \<open>console.warn\<close> and
  \<open>console.error\<close>. The informational \<open>console.log\<close> lines are left out.
\<close>

datatype observed =
    CallGetEntityById "int option"
  | CallOnEntityLoaded jsval
  | CallOnAdditionalAction jsval "int option"
  | ConsoleWarn string
  | ConsoleError jsval

text \<open>
  The \<open>try\<close> block of \<open>loadSpecificEntity\<close>: its result is \<open>Inl err\<close> when
  an exception leaves the block, paired with what happened before. The exception is
  the rejection of the awaited promise or what a callback throws; a callback that
  throws ends the block, so that nothing after it in the block runs.
\<close>

definition loadSpecificEntity_try ::
  "EntityUrlNavigationConfig \<Rightarrow> string \<Rightarrow> (jsval + unit) \<times> observed list" where
  "loadSpecificEntity_try config entityId =
     (case getEntityById config (parseInt entityId) of
        Rejects err \<Rightarrow> (Inl err, [CallGetEntityById (parseInt entityId)])
      | Unsettled \<Rightarrow> (Inr (), [CallGetEntityById (parseInt entityId)])
      | Resolves response \<Rightarrow>
          (case data response of
             None \<Rightarrow> (Inr (), [CallGetEntityById (parseInt entityId), ConsoleWarn entityId])
           | Some entity \<Rightarrow>
               if success response \<and> ToBoolean entity then
                 (case onEntityLoaded config entity of
                    Throws err \<Rightarrow>
                      (Inl err, [CallGetEntityById (parseInt entityId), CallOnEntityLoaded entity])
                  | Returns \<Rightarrow>
                      (case onAdditionalAction config of
                         None \<Rightarrow>
                           (Inr (),
                            [CallGetEntityById (parseInt entityId), CallOnEntityLoaded entity])
                       | Some additional \<Rightarrow>
                           (case additional entity (parseInt entityId) of
                              Throws err \<Rightarrow>
                                (Inl err,
                                 [CallGetEntityById (parseInt entityId), CallOnEntityLoaded entity,
                                  CallOnAdditionalAction entity (parseInt entityId)])
                            | Returns \<Rightarrow>
                                (Inr (),
                                 [CallGetEntityById (parseInt entityId), CallOnEntityLoaded entity,
                                  CallOnAdditionalAction entity (parseInt entityId)]))))
               else (Inr (), [CallGetEntityById (parseInt entityId), ConsoleWarn entityId])))"

text \<open>
  \<open>loadSpecificEntity\<close> with its \<open>catch\<close>, which logs the error and ends
  normally. The first component is how the promise of the \<open>async\<close> function ends;
  the effect does not await it, so \<open>Inl err\<close> would be an error that reaches the
  host unhandled.
\<close>

definition loadSpecificEntity ::
  "EntityUrlNavigationConfig \<Rightarrow> string \<Rightarrow> (jsval + unit) \<times> observed list" where
  "loadSpecificEntity config entityId =
     (case loadSpecificEntity_try config entityId of
        (Inl err, seen) \<Rightarrow> (Inr (), seen @ [ConsoleError err])
      | (Inr u, seen) \<Rightarrow> (Inr u, seen))"

text \<open>
  The body of the effect, run once for a value of \<open>location.search\<close>. A string is
  truthy when it is not empty.
\<close>

definition useEntityUrlNavigation ::
  "EntityUrlNavigationConfig \<Rightarrow> string \<Rightarrow> (jsval + unit) \<times> observed list" where
  "useEntityUrlNavigation config search =
     (let searchParams = URLSearchParams search;
          entityId = searchParams_get searchParams ''id'';
          action = searchParams_get searchParams ''action''
      in case entityId of
           None \<Rightarrow> (Inr (), [])
         | Some eid \<Rightarrow>
             if eid \<noteq> [] \<and> (action = Some ''view'' \<or> action = Some ''detail'')
             then loadSpecificEntity config eid
             else (Inr (), []))"

section \<open>Notions used to state the properties\<close>

text \<open>
  The operations in flight are those invoked whose outcome has not been delivered
  (\<open>in_flight\<close>, above). The submissions still pending are the tickets handed out
  that have neither been invoked nor been settled by a cancellation.
\<close>

definition pending :: "RateLimiter \<Rightarrow> nat list" where
  "pending s =
     filter (\<lambda>t. t \<notin> ticket ` set (launched s) \<and> settled s t = None) [0..<nextTicket s]"

text \<open>
  What holds of every state the scheduler can reach: operations are invoked and queued
  in the order of their tickets, every ticket in use has been handed out, the pending
  sequence holds exactly the submissions neither invoked nor settled, and the counter
  equals the number of operations in flight.
\<close>

definition scheduler_inv :: "RateLimiter \<Rightarrow> bool" where
  "scheduler_inv s \<longleftrightarrow>
     sorted_wrt (<) (map ticket (launched s @ queue s)) \<and>
     (\<forall>item \<in> set (launched s). ticket item < nextTicket s) \<and>
     (\<forall>t. settled s t \<noteq> None \<longrightarrow> t < nextTicket s) \<and>
     ticket ` set (queue s) =
       {t. t < nextTicket s \<and> t \<notin> ticket ` set (launched s) \<and> settled s t = None} \<and>
     activeRequests s = int (length (in_flight s))"

text \<open>
  A call of \<open>updateSettings\<close> keeps the ceiling when the \<open>maxConcurrent\<close> it
  provides, if any, is a whole number not below the current \<open>activeRequests\<close>;
  every other event does. \<open>ceiling_kept es s\<close>: every event of the run \<open>es\<close> from
  \<open>s\<close> keeps the ceiling in the state where it happens.
\<close>

definition keeps_ceiling :: "event \<Rightarrow> RateLimiter \<Rightarrow> bool" where
  "keeps_ceiling e s =
     (case e of
        UpdateSettings settings \<Rightarrow>
          (case set_maxConcurrent settings of
             None \<Rightarrow> True
           | Some m \<Rightarrow> of_int \<lfloor>m\<rfloor> = m \<and> of_int (activeRequests s) \<le> m)
      | _ \<Rightarrow> True)"

fun ceiling_kept :: "event list \<Rightarrow> RateLimiter \<Rightarrow> bool" where
  "ceiling_kept [] s = True"
| "ceiling_kept (e # es) s = (keeps_ceiling e s \<and> ceiling_kept es (step e s))"

definition below_ceiling :: "RateLimiter \<Rightarrow> bool" where
  "below_ceiling s \<longleftrightarrow>
     of_int \<lfloor>maxConcurrent s\<rfloor> = maxConcurrent s \<and> of_int (activeRequests s) \<le> maxConcurrent s"

text \<open>
  The order of two submissions \<open>A\<close> before \<open>B\<close>, as far as a run has carried it:
  \<open>B\<close> has not been invoked unless \<open>A\<close> has, and \<open>B\<close> is not pending unless
  \<open>A\<close> is pending or has been invoked.
\<close>

definition fifo_pair :: "RequestQueue \<Rightarrow> RequestQueue \<Rightarrow> RateLimiter \<Rightarrow> bool" where
  "fifo_pair A B s \<longleftrightarrow>
     ticket A < ticket B \<and> ticket B < nextTicket s \<and>
     sorted_wrt (<) (map ticket (launched s @ queue s)) \<and>
     (B \<in> set (launched s) \<longrightarrow> A \<in> set (launched s)) \<and>
     (B \<in> set (queue s) \<longrightarrow> A \<in> set (launched s) \<or> A \<in> set (queue s))"

text \<open>The calls of the two callbacks among what a run of the effect shows.\<close>

definition is_callback :: "observed \<Rightarrow> bool" where
  "is_callback ob = (case ob of CallOnEntityLoaded _ \<Rightarrow> True
                      | CallOnAdditionalAction _ _ \<Rightarrow> True | _ \<Rightarrow> False)"

section \<open>Lemmas about the scheduler\<close>

subsection \<open>What each operation changes\<close>

lemma settled_settle:
  "settled (settle t out s) t' = (if t' = t \<and> settled s t = None then Some out else settled s t')"
  by (auto simp: settled_def settle_def map_add_def split: option.splits)

lemma settle_fields [simp]:
  "queue (settle t out s) = queue s"
  "isProcessing (settle t out s) = isProcessing s"
  "requestDelay (settle t out s) = requestDelay s"
  "maxConcurrent (settle t out s) = maxConcurrent s"
  "activeRequests (settle t out s) = activeRequests s"
  "timers (settle t out s) = timers s"
  "launched (settle t out s) = launched s"
  "nextTicket (settle t out s) = nextTicket s"
  by (simp_all add: settle_def)

lemma settled_update_other [simp]:
  "settled (s\<lparr>queue := q\<rparr>) = settled s"
  "settled (s\<lparr>isProcessing := b\<rparr>) = settled s"
  "settled (s\<lparr>requestDelay := d\<rparr>) = settled s"
  "settled (s\<lparr>maxConcurrent := m\<rparr>) = settled s"
  "settled (s\<lparr>activeRequests := a\<rparr>) = settled s"
  "settled (s\<lparr>timers := ts\<rparr>) = settled s"
  "settled (s\<lparr>launched := l\<rparr>) = settled s"
  "settled (s\<lparr>nextTicket := n\<rparr>) = settled s"
  by (simp_all add: settled_def fun_eq_iff)

lemma fold_settle_fields [simp]:
  "queue (fold (\<lambda>item. settle (ticket item) out) items s) = queue s"
  "isProcessing (fold (\<lambda>item. settle (ticket item) out) items s) = isProcessing s"
  "requestDelay (fold (\<lambda>item. settle (ticket item) out) items s) = requestDelay s"
  "maxConcurrent (fold (\<lambda>item. settle (ticket item) out) items s) = maxConcurrent s"
  "activeRequests (fold (\<lambda>item. settle (ticket item) out) items s) = activeRequests s"
  "timers (fold (\<lambda>item. settle (ticket item) out) items s) = timers s"
  "launched (fold (\<lambda>item. settle (ticket item) out) items s) = launched s"
  "nextTicket (fold (\<lambda>item. settle (ticket item) out) items s) = nextTicket s"
  by (induction items arbitrary: s; simp)+

lemma settled_fold_settle:
  "settled (fold (\<lambda>item. settle (ticket item) out) items s) t =
     (if settled s t = None \<and> t \<in> ticket ` set items then Some out else settled s t)"
  by (induction items arbitrary: s) (auto simp: settled_settle)

lemma processQueue_loop_unfold:
  "processQueue_loop s =
     (if queue s \<noteq> [] \<and> of_int (activeRequests s) < maxConcurrent s then
        (if tl (queue s) \<noteq> [] then
           s\<lparr>queue := tl (queue s), activeRequests := activeRequests s + 1,
             launched := launched s @ [hd (queue s)],
             timers := timers s @ [(requestDelay s, ResumeLoop)]\<rparr>
         else
           s\<lparr>queue := [], activeRequests := activeRequests s + 1,
             launched := launched s @ [hd (queue s)], isProcessing := False\<rparr>)
      else s\<lparr>isProcessing := False\<rparr>)"
  apply (subst processQueue_loop.simps)
  apply (cases "queue s")
   apply simp
  apply (simp add: executeRequest_def delay_def setTimeout_def Let_def)
  apply (subst processQueue_loop.simps)
  apply simp
  done

subsection \<open>The invariant holds in every reachable state\<close>

lemma inv_new: "scheduler_inv RateLimiter_new"
  by (simp add: scheduler_inv_def RateLimiter_new_def in_flight_def settled_def)

lemma inv_flag [simp]: "scheduler_inv (s\<lparr>isProcessing := b\<rparr>) = scheduler_inv s"
  "scheduler_inv (s\<lparr>timers := ts\<rparr>) = scheduler_inv s"
  "scheduler_inv (s\<lparr>requestDelay := d\<rparr>) = scheduler_inv s"
  "scheduler_inv (s\<lparr>maxConcurrent := m\<rparr>) = scheduler_inv s"
  by (simp_all add: scheduler_inv_def in_flight_def)

lemma inv_dispatch:
  assumes "scheduler_inv s" "queue s = item # rest"
  shows "scheduler_inv (s\<lparr>queue := rest, activeRequests := activeRequests s + 1,
             launched := launched s @ [item]\<rparr>)"
proof -
  from assms have srt: "sorted_wrt (<) (map ticket (launched s @ item # rest))"
    by (simp add: scheduler_inv_def)
  from assms have q: "ticket ` set (item # rest) =
       {t. t < nextTicket s \<and> t \<notin> ticket ` set (launched s) \<and> settled s t = None}"
    by (simp add: scheduler_inv_def)
  have un: "settled s (ticket item) = None" and lt: "ticket item < nextTicket s"
    and nl: "ticket item \<notin> ticket ` set (launched s)"
    using q by auto
  have nr: "ticket item \<notin> ticket ` set rest"
    using srt by (auto simp: sorted_wrt_append)
  have q': "ticket ` set rest =
       {t. t < nextTicket s \<and> t \<notin> ticket ` set (launched s @ [item]) \<and> settled s t = None}"
  proof (rule set_eqI)
    fix t
    show "t \<in> ticket ` set rest \<longleftrightarrow>
          t \<in> {t. t < nextTicket s \<and> t \<notin> ticket ` set (launched s @ [item]) \<and> settled s t = None}"
    proof (cases "t = ticket item")
      case True
      then show ?thesis using nr by simp
    next
      case False
      have "t \<in> ticket ` set (item # rest) \<longleftrightarrow>
            t \<in> {t. t < nextTicket s \<and> t \<notin> ticket ` set (launched s) \<and> settled s t = None}"
        using q by simp
      with False show ?thesis by auto
    qed
  qed
  show ?thesis
    using assms srt un lt q'
    by (simp add: scheduler_inv_def in_flight_def)
qed

lemma inv_loop: "scheduler_inv s \<Longrightarrow> scheduler_inv (processQueue_loop s)"
  apply (subst processQueue_loop_unfold)
  apply (cases "queue s")
   apply simp
  using inv_dispatch[of s] apply auto
  done

lemma inv_processQueue: "scheduler_inv s \<Longrightarrow> scheduler_inv (processQueue s)"
  by (simp add: processQueue_def inv_loop)

lemma inv_push:
  assumes "scheduler_inv s"
  shows "scheduler_inv (s\<lparr>queue := queue s @ [\<lparr>rid = i, ticket = nextTicket s\<rparr>],
          nextTicket := Suc (nextTicket s)\<rparr>)"
proof -
  let ?n = "nextTicket s"
  from assms have srt: "sorted_wrt (<) (map ticket (launched s @ queue s))"
    and lb: "\<forall>item \<in> set (launched s). ticket item < ?n"
    and sb: "\<forall>t. settled s t \<noteq> None \<longrightarrow> t < ?n"
    and q: "ticket ` set (queue s) =
       {t. t < ?n \<and> t \<notin> ticket ` set (launched s) \<and> settled s t = None}"
    and a: "activeRequests s = int (length (in_flight s))"
    by (simp_all add: scheduler_inv_def)
  have qb: "\<forall>item \<in> set (queue s). ticket item < ?n"
    using q by auto
  have un: "settled s ?n = None"
    using sb by (cases "settled s ?n") auto
  have nl: "?n \<notin> ticket ` set (launched s)"
    using lb by auto
  have srt': "sorted_wrt (<) (map ticket (launched s @ queue s @ [\<lparr>rid = i, ticket = ?n\<rparr>]))"
    using srt lb qb by (simp add: sorted_wrt_append)
  have q': "ticket ` set (queue s @ [\<lparr>rid = i, ticket = ?n\<rparr>]) =
       {t. t < Suc ?n \<and> t \<notin> ticket ` set (launched s) \<and> settled s t = None}"
  proof (rule set_eqI)
    fix t
    show "t \<in> ticket ` set (queue s @ [\<lparr>rid = i, ticket = ?n\<rparr>]) \<longleftrightarrow>
          t \<in> {t. t < Suc ?n \<and> t \<notin> ticket ` set (launched s) \<and> settled s t = None}"
    proof (cases "t = ?n")
      case True
      then show ?thesis using un nl by simp
    next
      case False
      have "t \<in> ticket ` set (queue s) \<longleftrightarrow>
            t \<in> {t. t < ?n \<and> t \<notin> ticket ` set (launched s) \<and> settled s t = None}"
        using q by simp
      with False show ?thesis by auto
    qed
  qed
  show ?thesis
    using srt' lb sb q' a
    by (auto simp add: scheduler_inv_def in_flight_def less_Suc_eq)
qed

lemma inv_addRequest: "scheduler_inv s \<Longrightarrow> scheduler_inv (addRequest i s)"
  by (simp add: addRequest_def inv_processQueue inv_push)

lemma inv_updateSettings: "scheduler_inv s \<Longrightarrow> scheduler_inv (updateSettings settings s)"
  by (simp add: updateSettings_def split: option.splits)

lemma inv_clearQueue:
  assumes "scheduler_inv s"
  shows "scheduler_inv (clearQueue s)"
proof -
  let ?s' = "fold (\<lambda>item. settle (ticket item) (Rejected (JError ''Request cancelled''))) (queue s) s"
  from assms have srt: "sorted_wrt (<) (map ticket (launched s @ queue s))"
    and lb: "\<forall>item \<in> set (launched s). ticket item < nextTicket s"
    and sb: "\<forall>t. settled s t \<noteq> None \<longrightarrow> t < nextTicket s"
    and q: "ticket ` set (queue s) =
       {t. t < nextTicket s \<and> t \<notin> ticket ` set (launched s) \<and> settled s t = None}"
    and a: "activeRequests s = int (length (in_flight s))"
    by (simp_all add: scheduler_inv_def)
  have st: "settled ?s' t =
      (if settled s t = None \<and> t \<in> ticket ` set (queue s) then Some (Rejected (JError ''Request cancelled''))
       else settled s t)" for t
    by (rule settled_fold_settle)
  have fl: "filter (\<lambda>item. settled ?s' (ticket item) = None) (launched s)
          = filter (\<lambda>item. settled s (ticket item) = None) (launched s)"
    by (rule filter_cong) (use q in \<open>auto simp: st\<close>)
  have e: "{t. t < nextTicket s \<and> t \<notin> ticket ` set (launched s) \<and> settled ?s' t = None} = {}"
    using q by (auto simp: st)
  have sb': "\<forall>t. settled ?s' t \<noteq> None \<longrightarrow> t < nextTicket s"
    using sb q by (auto simp: st)
  show ?thesis
    using srt lb sb' e a fl
    by (simp add: scheduler_inv_def clearQueue_def in_flight_def sorted_wrt_append)
qed

lemma length_filter_remove_ticket:
  assumes "distinct (map ticket xs)" "x \<in> set xs" "P x"
  shows "length (filter (\<lambda>y. P y \<and> ticket y \<noteq> ticket x) xs) + 1 = length (filter P xs)"
  using assms
proof (induction xs)
  case Nil
  then show ?case by simp
next
  case (Cons y ys)
  show ?case
  proof (cases "y = x")
    case True
    with Cons.prems have "ticket x \<notin> ticket ` set ys" by simp
    then have "\<forall>z \<in> set ys. ticket z \<noteq> ticket x" by (metis imageI)
    then have "filter (\<lambda>y. P y \<and> ticket y \<noteq> ticket x) ys = filter P ys"
      by (intro filter_cong) auto
    with True Cons.prems show ?thesis by simp
  next
    case False
    with Cons.prems have "x \<in> set ys" "distinct (map ticket ys)" "ticket y \<noteq> ticket x"
      by auto
    with Cons.IH Cons.prems show ?thesis by simp
  qed
qed

lemma inv_distinct: "scheduler_inv s \<Longrightarrow> distinct (map ticket (launched s @ queue s))"
  using strict_sorted_iff[of "map ticket (launched s @ queue s)"]
  by (simp add: scheduler_inv_def)

lemma find_SomeD: "find P xs = Some x \<Longrightarrow> x \<in> set xs \<and> P x"
  by (induction xs) (auto split: if_splits)

lemma find_in_flight:
  assumes "find (\<lambda>item. ticket item = t) (in_flight s) = Some item"
  shows "item \<in> set (launched s) \<and> ticket item = t \<and> settled s t = None"
  using find_SomeD[OF assms] by (auto simp: in_flight_def)

lemma inv_executeRequest_settled:
  assumes "scheduler_inv s" "item \<in> set (launched s)" "settled s (ticket item) = None"
  shows "scheduler_inv (executeRequest_settled item out s)"
proof -
  let ?s' = "settle (ticket item) out s"
  from assms have srt: "sorted_wrt (<) (map ticket (launched s @ queue s))"
    and lb: "\<forall>item \<in> set (launched s). ticket item < nextTicket s"
    and sb: "\<forall>t. settled s t \<noteq> None \<longrightarrow> t < nextTicket s"
    and q: "ticket ` set (queue s) =
       {t. t < nextTicket s \<and> t \<notin> ticket ` set (launched s) \<and> settled s t = None}"
    and a: "activeRequests s = int (length (in_flight s))"
    by (simp_all add: scheduler_inv_def)
  have d: "distinct (map ticket (launched s))"
    using inv_distinct[OF assms(1)] by simp
  have st: "settled ?s' t = (if t = ticket item then Some out else settled s t)" for t
    using assms(3) by (simp add: settled_settle)
  have "length (filter (\<lambda>y. settled s (ticket y) = None \<and> ticket y \<noteq> ticket item) (launched s)) + 1
        = length (filter (\<lambda>y. settled s (ticket y) = None) (launched s))"
    using d assms(2,3) by (rule length_filter_remove_ticket)
  moreover have "filter (\<lambda>y. settled ?s' (ticket y) = None) (launched s)
        = filter (\<lambda>y. settled s (ticket y) = None \<and> ticket y \<noteq> ticket item) (launched s)"
    by (rule filter_cong) (auto simp: st)
  ultimately have a': "activeRequests s - 1 = int (length (filter (\<lambda>y. settled ?s' (ticket y) = None) (launched s)))"
    using a by (simp add: in_flight_def)
  have q': "ticket ` set (queue s) =
       {t. t < nextTicket s \<and> t \<notin> ticket ` set (launched s) \<and> settled ?s' t = None}"
    using q assms(2) by (auto simp: st)
  have sb': "\<forall>t. settled ?s' t \<noteq> None \<longrightarrow> t < nextTicket s"
    using sb lb assms(2) by (auto simp: st)
  have "scheduler_inv (?s'\<lparr>activeRequests := activeRequests s - 1\<rparr>)"
    using srt lb sb' q' a'
    by (simp add: scheduler_inv_def in_flight_def)
  then show ?thesis
    by (cases out) (simp_all add: executeRequest_settled_def setTimeout_def)
qed

lemma inv_operationSettles: "scheduler_inv s \<Longrightarrow> scheduler_inv (operationSettles t out s)"
  by (auto simp: operationSettles_def split: option.splits
      dest!: find_in_flight intro: inv_executeRequest_settled)

lemma inv_timerFires: "scheduler_inv s \<Longrightarrow> scheduler_inv (timerFires i s)"
  by (simp add: timerFires_def Let_def inv_loop inv_processQueue split: continuation.splits)

lemma inv_step: "scheduler_inv s \<Longrightarrow> scheduler_inv (step e s)"
  by (cases e) (simp_all add: inv_addRequest inv_clearQueue inv_updateSettings
      inv_operationSettles inv_timerFires)

lemma inv_run: "scheduler_inv s \<Longrightarrow> scheduler_inv (run es s)"
  by (induction es arbitrary: s) (simp_all add: inv_step)

lemma inv_reachable: "scheduler_inv (run es RateLimiter_new)"
  by (simp add: inv_run inv_new)

subsection \<open>The counter stays below a ceiling that is kept\<close>

lemma below_ceiling_upd [simp]:
  "below_ceiling (s\<lparr>isProcessing := b\<rparr>) = below_ceiling s"
  "below_ceiling (s\<lparr>timers := ts\<rparr>) = below_ceiling s"
  "below_ceiling (s\<lparr>queue := q\<rparr>) = below_ceiling s"
  "below_ceiling (s\<lparr>launched := l\<rparr>) = below_ceiling s"
  "below_ceiling (s\<lparr>nextTicket := n\<rparr>) = below_ceiling s"
  "below_ceiling (s\<lparr>requestDelay := d\<rparr>) = below_ceiling s"
  "below_ceiling (settle t out s) = below_ceiling s"
  by (simp_all add: below_ceiling_def)

lemma below_ceiling_incr:
  assumes "below_ceiling s" "of_int (activeRequests s) < maxConcurrent s"
  shows "below_ceiling (s\<lparr>activeRequests := activeRequests s + 1\<rparr>)"
proof -
  from assms(1) have m: "maxConcurrent s = of_int \<lfloor>maxConcurrent s\<rfloor>"
    unfolding below_ceiling_def by (rule conjE) (rule sym)
  with assms(2) have "(of_int (activeRequests s) :: rat) < of_int \<lfloor>maxConcurrent s\<rfloor>"
    by simp
  then have "activeRequests s < \<lfloor>maxConcurrent s\<rfloor>"
    by (simp only: of_int_less_iff)
  then have "activeRequests s + 1 \<le> \<lfloor>maxConcurrent s\<rfloor>" by simp
  then have "(of_int (activeRequests s + 1) :: rat) \<le> of_int \<lfloor>maxConcurrent s\<rfloor>"
    by (simp only: of_int_le_iff)
  then have "(of_int (activeRequests s + 1) :: rat) \<le> maxConcurrent s"
    using m by simp
  with assms(1) show ?thesis unfolding below_ceiling_def by simp
qed

lemma below_ceiling_loop: "below_ceiling s \<Longrightarrow> below_ceiling (processQueue_loop s)"
  using below_ceiling_incr[of s]
  by (subst processQueue_loop_unfold) (simp add: below_ceiling_def)

lemma below_ceiling_processQueue: "below_ceiling s \<Longrightarrow> below_ceiling (processQueue s)"
  by (simp add: processQueue_def below_ceiling_loop)

lemma below_ceiling_addRequest: "below_ceiling s \<Longrightarrow> below_ceiling (addRequest i s)"
  by (simp add: addRequest_def below_ceiling_processQueue)

lemma below_ceiling_clearQueue: "below_ceiling s \<Longrightarrow> below_ceiling (clearQueue s)"
  by (simp add: clearQueue_def below_ceiling_def)

lemma below_ceiling_settles: "below_ceiling s \<Longrightarrow> below_ceiling (operationSettles t out s)"
  by (auto simp: operationSettles_def executeRequest_settled_def setTimeout_def below_ceiling_def
      split: option.splits outcome.splits)

lemma below_ceiling_timerFires: "below_ceiling s \<Longrightarrow> below_ceiling (timerFires i s)"
  by (simp add: timerFires_def Let_def below_ceiling_loop below_ceiling_processQueue
      split: continuation.splits)

lemma below_ceiling_updateSettings:
  "below_ceiling s \<Longrightarrow> keeps_ceiling (UpdateSettings settings) s
   \<Longrightarrow> below_ceiling (updateSettings settings s)"
  by (auto simp: updateSettings_def keeps_ceiling_def below_ceiling_def split: option.splits)

lemma below_ceiling_step:
  "below_ceiling s \<Longrightarrow> keeps_ceiling e s \<Longrightarrow> below_ceiling (step e s)"
  by (cases e) (simp_all add: below_ceiling_addRequest below_ceiling_clearQueue
      below_ceiling_settles below_ceiling_timerFires below_ceiling_updateSettings)

lemma below_ceiling_run:
  "below_ceiling s \<Longrightarrow> ceiling_kept es s \<Longrightarrow> below_ceiling (run es s)"
  by (induction es arbitrary: s) (simp_all add: below_ceiling_step)

lemma ceiling_kept_take: "ceiling_kept es s \<Longrightarrow> ceiling_kept (take n es) s"
  by (induction es arbitrary: s n) (auto simp: take_Cons split: nat.splits)

lemma below_ceiling_new: "below_ceiling RateLimiter_new"
  by (simp add: below_ceiling_def RateLimiter_new_def)

lemmas run_eval = addRequest_def processQueue_def processQueue_loop_unfold clearQueue_def
  updateSettings_def operationSettles_def timerFires_def executeRequest_settled_def
  setTimeout_def settle_def settled_def in_flight_def RateLimiter_new_def Let_def

subsection \<open>The order of two pending submissions is kept\<close>

lemma fifo_pair_upd [simp]:
  "fifo_pair A B (s\<lparr>isProcessing := b\<rparr>) = fifo_pair A B s"
  "fifo_pair A B (s\<lparr>timers := ts\<rparr>) = fifo_pair A B s"
  "fifo_pair A B (s\<lparr>requestDelay := d\<rparr>) = fifo_pair A B s"
  "fifo_pair A B (s\<lparr>maxConcurrent := m\<rparr>) = fifo_pair A B s"
  "fifo_pair A B (s\<lparr>activeRequests := a\<rparr>) = fifo_pair A B s"
  "fifo_pair A B (settle t out s) = fifo_pair A B s"
  by (simp_all add: fifo_pair_def)

lemma fifo_pair_dispatch:
  assumes "fifo_pair A B s" "queue s = item # rest"
  shows "fifo_pair A B (s\<lparr>queue := rest, activeRequests := a,
            launched := launched s @ [item]\<rparr>)"
proof -
  from assms have srt: "sorted_wrt (<) (map ticket (launched s @ item # rest))"
    by (simp add: fifo_pair_def)
  then have hd_least: "\<forall>x \<in> set rest. ticket item < ticket x"
    by (simp add: sorted_wrt_append)
  from assms have ab: "ticket A < ticket B"
    by (simp add: fifo_pair_def)
  have "B = item \<longrightarrow> A \<in> set (launched s)"
  proof
    assume b: "B = item"
    with assms have "A \<in> set (launched s) \<or> A \<in> set (item # rest)"
      by (simp add: fifo_pair_def)
    moreover have "A \<noteq> item" using ab b by auto
    moreover have "A \<notin> set rest" using hd_least ab b by auto
    ultimately show "A \<in> set (launched s)" by simp
  qed
  with assms srt show ?thesis
    by (auto simp: fifo_pair_def)
qed

lemma fifo_pair_loop: "fifo_pair A B s \<Longrightarrow> fifo_pair A B (processQueue_loop s)"
  apply (subst processQueue_loop_unfold)
  apply (cases "queue s")
   apply simp
  using fifo_pair_dispatch[of A B s] apply auto
  done

lemma fifo_pair_processQueue: "fifo_pair A B s \<Longrightarrow> fifo_pair A B (processQueue s)"
  by (simp add: processQueue_def fifo_pair_loop)

lemma fifo_pair_push:
  assumes "fifo_pair A B s" "scheduler_inv s"
  shows "fifo_pair A B (s\<lparr>queue := queue s @ [\<lparr>rid = i, ticket = nextTicket s\<rparr>],
          nextTicket := Suc (nextTicket s)\<rparr>)"
proof -
  have "sorted_wrt (<) (map ticket (launched (s\<lparr>queue := queue s @ [\<lparr>rid = i, ticket = nextTicket s\<rparr>],
          nextTicket := Suc (nextTicket s)\<rparr>) @ queue (s\<lparr>queue := queue s @ [\<lparr>rid = i, ticket = nextTicket s\<rparr>],
          nextTicket := Suc (nextTicket s)\<rparr>)))"
    using inv_push[OF assms(2), of i] unfolding scheduler_inv_def by blast
  with assms(1) show ?thesis
    by (auto simp: fifo_pair_def)
qed

lemma fifo_pair_addRequest:
  "fifo_pair A B s \<Longrightarrow> scheduler_inv s \<Longrightarrow> fifo_pair A B (addRequest i s)"
  by (simp add: addRequest_def fifo_pair_processQueue fifo_pair_push)

lemma fifo_pair_clearQueue: "fifo_pair A B s \<Longrightarrow> fifo_pair A B (clearQueue s)"
  by (simp add: clearQueue_def fifo_pair_def sorted_wrt_append)

lemma fifo_pair_updateSettings: "fifo_pair A B s \<Longrightarrow> fifo_pair A B (updateSettings settings s)"
  by (simp add: updateSettings_def split: option.splits)

lemma fifo_pair_settles: "fifo_pair A B s \<Longrightarrow> fifo_pair A B (operationSettles t out s)"
  by (simp add: operationSettles_def executeRequest_settled_def setTimeout_def
      split: option.splits outcome.splits)

lemma fifo_pair_timerFires: "fifo_pair A B s \<Longrightarrow> fifo_pair A B (timerFires i s)"
  by (simp add: timerFires_def Let_def fifo_pair_loop fifo_pair_processQueue
      split: continuation.splits)

lemma fifo_pair_step:
  "fifo_pair A B s \<Longrightarrow> scheduler_inv s \<Longrightarrow> fifo_pair A B (step e s)"
  by (cases e) (simp_all add: fifo_pair_addRequest fifo_pair_clearQueue
      fifo_pair_updateSettings fifo_pair_settles fifo_pair_timerFires)

lemma fifo_pair_run:
  "fifo_pair A B s \<Longrightarrow> scheduler_inv s \<Longrightarrow> fifo_pair A B (run es s)"
  by (induction es arbitrary: s) (simp_all add: fifo_pair_step inv_step)

lemma fifo_pair_start:
  assumes "scheduler_inv s" "i < j" "j < length (queue s)"
  shows "fifo_pair (queue s ! i) (queue s ! j) s"
proof -
  from assms(1) have srt: "sorted_wrt (<) (map ticket (launched s @ queue s))"
    and q: "ticket ` set (queue s) =
       {t. t < nextTicket s \<and> t \<notin> ticket ` set (launched s) \<and> settled s t = None}"
    by (simp_all add: scheduler_inv_def)
  from srt have "sorted_wrt (<) (map ticket (queue s))"
    by (simp add: sorted_wrt_append)
  then have ab: "ticket (queue s ! i) < ticket (queue s ! j)"
    using assms(2,3) by (simp add: sorted_wrt_iff_nth_less)
  have jq: "queue s ! j \<in> set (queue s)" and iq: "queue s ! i \<in> set (queue s)"
    using assms(2,3) by simp_all
  from jq have "ticket (queue s ! j) \<in> ticket ` set (queue s)" by (rule imageI)
  with q have b: "ticket (queue s ! j) < nextTicket s"
    and nl: "ticket (queue s ! j) \<notin> ticket ` set (launched s)" by auto
  from nl have "queue s ! j \<notin> set (launched s)" by auto
  with ab b srt iq show ?thesis by (simp add: fifo_pair_def)
qed

lemma sorted_tickets_order:
  assumes "sorted_wrt (<) (map ticket xs)" "A \<in> set xs" "B \<in> set xs" "ticket A < ticket B"
  shows "\<exists>i j. i < j \<and> j < length xs \<and> xs ! i = A \<and> xs ! j = B"
proof -
  from assms(2) obtain i where i: "i < length xs" "xs ! i = A" by (auto simp: in_set_conv_nth)
  from assms(3) obtain j where j: "j < length xs" "xs ! j = B" by (auto simp: in_set_conv_nth)
  have "\<not> j < i"
  proof
    assume "j < i"
    with assms(1) i(1) have "map ticket xs ! j < map ticket xs ! i"
      by (simp add: sorted_wrt_iff_nth_less)
    with i j assms(4) show False by simp
  qed
  moreover have "i \<noteq> j" using i j assms(4) by auto
  ultimately have "i < j" by simp
  with i j show ?thesis by blast
qed

subsection \<open>Cancelling and settling\<close>

lemma inv_queue_unsettled:
  "scheduler_inv s \<Longrightarrow> item \<in> set (queue s) \<Longrightarrow> settled s (ticket item) = None"
  unfolding scheduler_inv_def by blast

lemma inv_queue_not_launched:
  "scheduler_inv s \<Longrightarrow> item \<in> set (queue s) \<Longrightarrow> ticket item \<notin> ticket ` set (launched s)"
  unfolding scheduler_inv_def by blast

lemma in_flight_clearQueue:
  assumes "scheduler_inv s"
  shows "in_flight (clearQueue s) = in_flight s"
proof -
  have "filter (\<lambda>item. settled (clearQueue s) (ticket item) = None) (launched s)
      = filter (\<lambda>item. settled s (ticket item) = None) (launched s)"
  proof (rule filter_cong[OF refl])
    fix x assume "x \<in> set (launched s)"
    then have "ticket x \<notin> ticket ` set (queue s)"
      using inv_queue_not_launched[OF assms] by (metis imageE imageI)
    then show "(settled (clearQueue s) (ticket x) = None) = (settled s (ticket x) = None)"
      by (simp add: clearQueue_def settled_fold_settle)
  qed
  then show ?thesis by (simp add: in_flight_def clearQueue_def)
qed

lemma operationSettles_in_flight:
  assumes "item \<in> set (in_flight s)"
  shows "\<exists>item'. item' \<in> set (launched s) \<and> ticket item' = ticket item
           \<and> settled s (ticket item) = None
           \<and> operationSettles (ticket item) out s = executeRequest_settled item' out s"
proof -
  have "find (\<lambda>x. ticket x = ticket item) (in_flight s) \<noteq> None"
    using assms by (auto simp: find_None_iff)
  then obtain item' where f: "find (\<lambda>x. ticket x = ticket item) (in_flight s) = Some item'"
    by auto
  from find_in_flight[OF f] f show ?thesis
    by (auto simp: operationSettles_def)
qed

lemma settled_executeRequest_settled:
  "settled (executeRequest_settled item out s) t =
     (if t = ticket item \<and> settled s (ticket item) = None then Some out else settled s t)"
  by (cases out) (simp_all add: executeRequest_settled_def setTimeout_def settled_settle)

lemma executeRequest_settled_fields [simp]:
  "queue (executeRequest_settled item out s) = queue s"
  "launched (executeRequest_settled item out s) = launched s"
  "isProcessing (executeRequest_settled item out s) = isProcessing s"
  "nextTicket (executeRequest_settled item out s) = nextTicket s"
  "requestDelay (executeRequest_settled item out s) = requestDelay s"
  "maxConcurrent (executeRequest_settled item out s) = maxConcurrent s"
  "activeRequests (executeRequest_settled item out s) = activeRequests s - 1"
  "timers (executeRequest_settled item out s) = timers s @ [(requestDelay s / 2, CallProcessQueue)]"
  by (cases out; simp add: executeRequest_settled_def setTimeout_def)+

lemma processQueue_loop_settlements [simp]:
  "settlements (processQueue_loop s) = settlements s"
  "nextTicket (processQueue_loop s) = nextTicket s"
  by (subst processQueue_loop_unfold, simp)+

lemma processQueue_settlements [simp]:
  "settlements (processQueue s) = settlements s"
  "nextTicket (processQueue s) = nextTicket s"
  by (simp_all add: processQueue_def)

lemma settled_cong: "settlements s' = settlements s \<Longrightarrow> settled s' = settled s"
  by (simp add: settled_def fun_eq_iff)

lemma settled_addRequest [simp]: "settled (addRequest i s) = settled s"
  by (rule settled_cong) (simp add: addRequest_def)

lemma settled_updateSettings [simp]: "settled (updateSettings settings s) = settled s"
  by (rule settled_cong) (simp add: updateSettings_def split: option.splits)

lemma settled_timerFires [simp]: "settled (timerFires i s) = settled s"
  by (rule settled_cong) (simp add: timerFires_def Let_def split: continuation.splits)

lemma settled_operationSettles_other:
  "t \<noteq> t' \<Longrightarrow> settled (operationSettles t' out s) t = settled s t"
  by (auto simp: operationSettles_def settled_executeRequest_settled
      split: option.splits dest!: find_in_flight)

lemma in_flight_unsettled_by_others:
  assumes "scheduler_inv s" "item \<in> set (in_flight s)"
    and "\<forall>out. e \<noteq> OperationSettles (ticket item) out"
  shows "settled (step e s) (ticket item) = None"
proof -
  from assms(2) have u: "settled s (ticket item) = None" and l: "item \<in> set (launched s)"
    by (simp_all add: in_flight_def)
  show ?thesis
  proof (cases e)
    case (AddRequest i)
    then show ?thesis using u by simp
  next
    case ClearQueue
    have "item \<in> set (in_flight (clearQueue s))"
      using assms(1,2) by (simp add: in_flight_clearQueue)
    then show ?thesis using ClearQueue by (simp add: in_flight_def)
  next
    case (UpdateSettings settings)
    then show ?thesis using u by simp
  next
    case (OperationSettles t' out)
    with assms(3) have "ticket item \<noteq> t'" by auto
    then show ?thesis using OperationSettles u by (simp add: settled_operationSettles_other)
  next
    case (TimerFires i)
    then show ?thesis using u by simp
  qed
qed

lemma same_ticket_same_item:
  assumes "distinct (map ticket xs)" "x \<in> set xs" "y \<in> set xs" "ticket x = ticket y"
  shows "x = y"
  using assms by (meson distinct_map inj_onD)

subsection \<open>What a submission does at once\<close>

lemma launched_addRequest:
  "launched (addRequest i s) = launched s @
     (if \<not> isProcessing s \<and> of_int (activeRequests s) < maxConcurrent s
      then [hd (queue s @ [\<lparr>rid = i, ticket = nextTicket s\<rparr>])] else [])"
  by (simp add: addRequest_def processQueue_def processQueue_loop_unfold)

lemma queue_addRequest:
  "queue (addRequest i s) =
     (if \<not> isProcessing s \<and> of_int (activeRequests s) < maxConcurrent s
      then tl (queue s @ [\<lparr>rid = i, ticket = nextTicket s\<rparr>])
      else queue s @ [\<lparr>rid = i, ticket = nextTicket s\<rparr>])"
  by (simp add: addRequest_def processQueue_def processQueue_loop_unfold)

section \<open>Lemmas about the navigator\<close>

lemmas nav_eval = useEntityUrlNavigation_def loadSpecificEntity_def loadSpecificEntity_try_def
  searchParams_get_def URLSearchParams_def parse_pair_def plus_to_space_def
  parseInt_def is_white_space_def digit_value_def hex_value_def digits_value_def Let_def

lemma navigation_skips:
  assumes "searchParams_get (URLSearchParams search) ''id'' = None
       \<or> searchParams_get (URLSearchParams search) ''id'' = Some []
       \<or> searchParams_get (URLSearchParams search) ''action'' \<notin> {Some ''view'', Some ''detail''}"
  shows "useEntityUrlNavigation config search = (Inr (), [])"
  using assms by (auto simp: useEntityUrlNavigation_def Let_def split: option.splits)

lemma navigation_loads:
  assumes "searchParams_get (URLSearchParams search) ''id'' = Some entityId" "entityId \<noteq> []"
    and "searchParams_get (URLSearchParams search) ''action'' \<in> {Some ''view'', Some ''detail''}"
  shows "useEntityUrlNavigation config search = loadSpecificEntity config entityId"
  using assms by (auto simp: useEntityUrlNavigation_def Let_def)

lemma loadSpecificEntity_no_error: "fst (loadSpecificEntity config entityId) = Inr ()"
  by (simp add: loadSpecificEntity_def split: prod.splits sum.splits)

lemma loadSpecificEntity_try_fetches:
  "take 1 (snd (loadSpecificEntity_try config entityId)) = [CallGetEntityById (parseInt entityId)]"
  by (simp add: loadSpecificEntity_try_def
      split: fetch.splits option.splits completion.splits)

lemma snd_loadSpecificEntity:
  "snd (loadSpecificEntity config entityId) =
     snd (loadSpecificEntity_try config entityId)
     @ (case fst (loadSpecificEntity_try config entityId) of
          Inl err \<Rightarrow> [ConsoleError err] | Inr u \<Rightarrow> [])"
  by (simp add: loadSpecificEntity_def split: prod.splits sum.splits)

lemma loadSpecificEntity_fetches:
  "take 1 (snd (loadSpecificEntity config entityId)) = [CallGetEntityById (parseInt entityId)]"
proof (cases "snd (loadSpecificEntity_try config entityId)")
  case Nil
  with loadSpecificEntity_try_fetches[of config entityId] show ?thesis by simp
next
  case (Cons x xs)
  with loadSpecificEntity_try_fetches[of config entityId] show ?thesis
    by (simp add: snd_loadSpecificEntity)
qed

lemma loadSpecificEntity_try_callbacks:
  "(filter is_callback (snd (loadSpecificEntity_try config entityId)) \<noteq> [])
     = (\<exists>r payload. getEntityById config (parseInt entityId) = Resolves r
          \<and> success r \<and> data r = Some payload \<and> ToBoolean payload)"
proof (cases "getEntityById config (parseInt entityId)")
  case (Resolves r)
  show ?thesis
  proof (cases "data r")
    case None
    with Resolves show ?thesis
      by (simp add: loadSpecificEntity_try_def is_callback_def)
  next
    case (Some entity)
    with Resolves show ?thesis
      by (simp add: loadSpecificEntity_try_def is_callback_def
          split: completion.splits option.splits)
  qed
next
  case (Rejects err)
  then show ?thesis
    by (simp add: loadSpecificEntity_try_def is_callback_def)
next
  case Unsettled
  then show ?thesis
    by (simp add: loadSpecificEntity_try_def is_callback_def)
qed

lemma loadSpecificEntity_callbacks:
  "(filter is_callback (snd (loadSpecificEntity config entityId)) \<noteq> [])
     = (\<exists>r payload. getEntityById config (parseInt entityId) = Resolves r
          \<and> success r \<and> data r = Some payload \<and> ToBoolean payload)"
proof -
  have "filter is_callback (snd (loadSpecificEntity config entityId))
      = filter is_callback (snd (loadSpecificEntity_try config entityId))"
    by (simp add: snd_loadSpecificEntity is_callback_def split: sum.splits)
  then show ?thesis by (simp only: loadSpecificEntity_try_callbacks)
qed

section \<open>The claims\<close>

subsection \<open>Scheduler\<close>

text \<open>
  C1, as amended. The claim as written fails: \<open>updateSettings\<close> can set the ceiling
  below the number of operations already in flight (two in flight, ceiling set to 1),
  and a ceiling that is not a whole number is overshot by the next dispatch (ceiling
  5/2, third submission dispatched). What holds: over every sequence of submissions,
  cancellations, completions, timer firings and calls of \<open>updateSettings\<close> in which
  each \<open>maxConcurrent\<close> provided is a whole number not below the \<open>activeRequests\<close>
  of that moment, \<open>activeRequests\<close> is at most \<open>maxConcurrent\<close> after every event.
\<close>

theorem activeRequests_within_ceiling:
  assumes "ceiling_kept es RateLimiter_new"
  shows "of_int (activeRequests (run (take n es) RateLimiter_new))
           \<le> maxConcurrent (run (take n es) RateLimiter_new)"
  using below_ceiling_run[OF below_ceiling_new ceiling_kept_take[OF assms, of n]]
  by (simp add: below_ceiling_def)

theorem activeRequests_within_ceiling_witness:
  "ceiling_kept [AddRequest ''a'', AddRequest ''b'',
        UpdateSettings \<lparr>set_requestDelay = None, set_maxConcurrent = Some 2\<rparr>,
        AddRequest ''c'', OperationSettles 0 (Rejected (JError ''boom'')), TimerFires 0] RateLimiter_new
   \<and> of_int (activeRequests (run (take 6 [AddRequest ''a'', AddRequest ''b'',
        UpdateSettings \<lparr>set_requestDelay = None, set_maxConcurrent = Some 2\<rparr>,
        AddRequest ''c'', OperationSettles 0 (Rejected (JError ''boom'')), TimerFires 0]) RateLimiter_new))
      \<le> maxConcurrent (run (take 6 [AddRequest ''a'', AddRequest ''b'',
        UpdateSettings \<lparr>set_requestDelay = None, set_maxConcurrent = Some 2\<rparr>,
        AddRequest ''c'', OperationSettles 0 (Rejected (JError ''boom'')), TimerFires 0]) RateLimiter_new)"
proof -
  have h: "ceiling_kept [AddRequest ''a'', AddRequest ''b'',
        UpdateSettings \<lparr>set_requestDelay = None, set_maxConcurrent = Some 2\<rparr>,
        AddRequest ''c'', OperationSettles 0 (Rejected (JError ''boom'')), TimerFires 0] RateLimiter_new"
    by (simp add: run_eval keeps_ceiling_def)
  show ?thesis
    using h activeRequests_within_ceiling[OF h, of 6] by simp
qed

text \<open>
  C1 as written is false: after two submissions to a fresh scheduler both operations
  are in flight, and lowering the ceiling to 1 leaves \<open>activeRequests = 2\<close> above
  it; with the ceiling set to 5/2, three submissions put three operations in flight.
\<close>

theorem ceiling_exceeded_counterexample:
  "maxConcurrent (run [AddRequest ''a'', AddRequest ''b'',
        UpdateSettings \<lparr>set_requestDelay = None, set_maxConcurrent = Some 1\<rparr>] RateLimiter_new)
     < of_int (activeRequests (run [AddRequest ''a'', AddRequest ''b'',
        UpdateSettings \<lparr>set_requestDelay = None, set_maxConcurrent = Some 1\<rparr>] RateLimiter_new))
   \<and> maxConcurrent (run [UpdateSettings \<lparr>set_requestDelay = None, set_maxConcurrent = Some (5/2)\<rparr>,
        AddRequest ''a'', AddRequest ''b'', AddRequest ''c''] RateLimiter_new)
     < of_int (activeRequests (run [UpdateSettings \<lparr>set_requestDelay = None, set_maxConcurrent = Some (5/2)\<rparr>,
        AddRequest ''a'', AddRequest ''b'', AddRequest ''c''] RateLimiter_new))"
  by (simp add: run_eval)

text \<open>
  C2. Dispatch is first in, first out: when \<open>A\<close> stands before \<open>B\<close> in the
  pending sequence of a reachable state, then after any further events, if the
  operation of \<open>B\<close> has been invoked, the operation of \<open>A\<close> was invoked before it.
\<close>

theorem dispatch_is_fifo:
  assumes "s = run es RateLimiter_new" "i < j" "j < length (queue s)"
    and "s' = run es' s" "queue s ! j \<in> set (launched s')"
  shows "\<exists>i' j'. i' < j' \<and> j' < length (launched s')
           \<and> launched s' ! i' = queue s ! i \<and> launched s' ! j' = queue s ! j"
proof -
  have inv: "scheduler_inv s" using assms(1) by (simp add: inv_reachable)
  have "fifo_pair (queue s ! i) (queue s ! j) s'"
    unfolding assms(4) using fifo_pair_start[OF inv assms(2,3)] inv by (rule fifo_pair_run)
  then have ab: "ticket (queue s ! i) < ticket (queue s ! j)"
    and srt: "sorted_wrt (<) (map ticket (launched s' @ queue s'))"
    and a: "queue s ! i \<in> set (launched s')"
    using assms(5) by (simp_all add: fifo_pair_def)
  from srt have "sorted_wrt (<) (map ticket (launched s'))"
    by (simp add: sorted_wrt_append)
  then show ?thesis using a assms(5) ab by (rule sorted_tickets_order)
qed

theorem dispatch_is_fifo_witness:
  "1 < length (queue (run [UpdateSettings \<lparr>set_requestDelay = None, set_maxConcurrent = Some 1\<rparr>,
          AddRequest ''a'', AddRequest ''b'', AddRequest ''c''] RateLimiter_new))
   \<and> (\<exists>i' j'. i' < j'
     \<and> j' < length (launched (run [OperationSettles 0 (Fulfilled (JNum 1)), TimerFires 0,
          OperationSettles 1 (Rejected (JError ''boom'')), TimerFires 0]
        (run [UpdateSettings \<lparr>set_requestDelay = None, set_maxConcurrent = Some 1\<rparr>,
          AddRequest ''a'', AddRequest ''b'', AddRequest ''c''] RateLimiter_new)))
     \<and> launched (run [OperationSettles 0 (Fulfilled (JNum 1)), TimerFires 0,
          OperationSettles 1 (Rejected (JError ''boom'')), TimerFires 0]
        (run [UpdateSettings \<lparr>set_requestDelay = None, set_maxConcurrent = Some 1\<rparr>,
          AddRequest ''a'', AddRequest ''b'', AddRequest ''c''] RateLimiter_new)) ! i'
       = \<lparr>rid = ''b'', ticket = 1\<rparr>
     \<and> launched (run [OperationSettles 0 (Fulfilled (JNum 1)), TimerFires 0,
          OperationSettles 1 (Rejected (JError ''boom'')), TimerFires 0]
        (run [UpdateSettings \<lparr>set_requestDelay = None, set_maxConcurrent = Some 1\<rparr>,
          AddRequest ''a'', AddRequest ''b'', AddRequest ''c''] RateLimiter_new)) ! j'
       = \<lparr>rid = ''c'', ticket = 2\<rparr>)"
proof -
  let ?es = "[UpdateSettings \<lparr>set_requestDelay = None, set_maxConcurrent = Some 1\<rparr>,
      AddRequest ''a'', AddRequest ''b'', AddRequest ''c'']"
  let ?es' = "[OperationSettles 0 (Fulfilled (JNum 1)), TimerFires 0,
      OperationSettles 1 (Rejected (JError ''boom'')), TimerFires 0]"
  have q: "queue (run ?es RateLimiter_new) = [\<lparr>rid = ''b'', ticket = 1\<rparr>, \<lparr>rid = ''c'', ticket = 2\<rparr>]"
    by (simp add: run_eval)
  have h1: "(0::nat) < 1" by simp
  have h2: "1 < length (queue (run ?es RateLimiter_new))"
    by (simp add: run_eval)
  have h3: "queue (run ?es RateLimiter_new) ! 1 \<in> set (launched (run ?es' (run ?es RateLimiter_new)))"
    by (simp add: run_eval)
  have b: "queue (run ?es RateLimiter_new) ! 0 = \<lparr>rid = ''b'', ticket = 1\<rparr>"
    and c: "queue (run ?es RateLimiter_new) ! 1 = \<lparr>rid = ''c'', ticket = 2\<rparr>"
    unfolding q by simp_all
  show ?thesis
    using h2 dispatch_is_fifo[OF refl h1 h2 refl h3] unfolding b c by blast
qed

text \<open>
  C3. In every reachable state \<open>clearQueue\<close> rejects the promise of every pending
  request with the cancellation error, \<open>new Error('Request cancelled')\<close>, and
  leaves the pending sequence empty, with
  \<open>queueLength\<close> 0; the operations in flight and their counter are as before, their
  promises are still unsettled, and each is settled with its own outcome when its
  operation completes afterwards.
\<close>

theorem clearQueue_cancels_pending_only:
  assumes "s = run es RateLimiter_new"
  shows "queue (clearQueue s) = [] \<and> queueLength (fst (getStatus (clearQueue s))) = 0
    \<and> (\<forall>item \<in> set (queue s).
          settled (clearQueue s) (ticket item) = Some (Rejected (JError ''Request cancelled'')))
    \<and> launched (clearQueue s) = launched s
    \<and> in_flight (clearQueue s) = in_flight s
    \<and> activeRequests (clearQueue s) = activeRequests s
    \<and> (\<forall>item \<in> set (in_flight s).
          settled (clearQueue s) (ticket item) = None
          \<and> (\<forall>out. settled (operationSettles (ticket item) out (clearQueue s)) (ticket item)
                 = Some out))"
proof -
  have inv: "scheduler_inv s" using assms by (simp add: inv_reachable)
  have c: "\<forall>item \<in> set (queue s).
          settled (clearQueue s) (ticket item) = Some (Rejected (JError ''Request cancelled''))"
    using inv_queue_unsettled[OF inv] by (simp add: clearQueue_def settled_fold_settle)
  have fl: "in_flight (clearQueue s) = in_flight s"
    using inv by (rule in_flight_clearQueue)
  have "settled (clearQueue s) (ticket item) = None
          \<and> (\<forall>out. settled (operationSettles (ticket item) out (clearQueue s)) (ticket item)
                 = Some out)" if "item \<in> set (in_flight s)" for item
  proof -
    from that have m: "item \<in> set (in_flight (clearQueue s))" by (simp add: fl)
    then have u: "settled (clearQueue s) (ticket item) = None"
      by (simp add: in_flight_def)
    have "settled (operationSettles (ticket item) out (clearQueue s)) (ticket item) = Some out"
      for out
      using operationSettles_in_flight[OF m, of out] u
      by (auto simp: settled_executeRequest_settled)
    with u show ?thesis by simp
  qed
  with c fl show ?thesis
    by (simp add: clearQueue_def getStatus_def)
qed

theorem clearQueue_cancels_pending_only_witness:
  "settled (clearQueue (run [UpdateSettings \<lparr>set_requestDelay = None, set_maxConcurrent = Some 1\<rparr>,
          AddRequest ''a'', AddRequest ''b'', AddRequest ''c''] RateLimiter_new)) 1
     = Some (Rejected (JError ''Request cancelled''))
   \<and> settled (clearQueue (run [UpdateSettings \<lparr>set_requestDelay = None, set_maxConcurrent = Some 1\<rparr>,
          AddRequest ''a'', AddRequest ''b'', AddRequest ''c''] RateLimiter_new)) 2
     = Some (Rejected (JError ''Request cancelled''))
   \<and> settled (operationSettles 0 (Fulfilled (JStr ''done''))
        (clearQueue (run [UpdateSettings \<lparr>set_requestDelay = None, set_maxConcurrent = Some 1\<rparr>,
          AddRequest ''a'', AddRequest ''b'', AddRequest ''c''] RateLimiter_new))) 0
     = Some (Fulfilled (JStr ''done''))"
proof -
  let ?es = "[UpdateSettings \<lparr>set_requestDelay = None, set_maxConcurrent = Some 1\<rparr>,
      AddRequest ''a'', AddRequest ''b'', AddRequest ''c'']"
  have q: "\<lparr>rid = ''b'', ticket = 1\<rparr> \<in> set (queue (run ?es RateLimiter_new))"
    "\<lparr>rid = ''c'', ticket = 2\<rparr> \<in> set (queue (run ?es RateLimiter_new))"
    by (simp_all add: run_eval)
  have f: "\<lparr>rid = ''a'', ticket = 0\<rparr> \<in> set (in_flight (run ?es RateLimiter_new))"
    by (simp add: run_eval)
  from clearQueue_cancels_pending_only[OF refl, of ?es] q f show ?thesis
    by fastforce
qed

text \<open>
  C4. When the operation of a request in flight settles, the promise returned by its
  \<open>addRequest\<close> is settled with exactly that outcome, value or error. No other
  promise changes; the pending sequence, the operations invoked, the loop flag and the
  pending timers of the loop stay as they are, and the other requests in flight stay
  in flight. No other event, the settling of another operation included, settles the
  promise of a request in flight.
\<close>

theorem outcome_forwarded_to_own_caller:
  assumes "s = run es RateLimiter_new" "item \<in> set (in_flight s)"
  shows "settled (operationSettles (ticket item) out s) (ticket item) = Some out
    \<and> (\<forall>t. t \<noteq> ticket item
          \<longrightarrow> settled (operationSettles (ticket item) out s) t = settled s t)
    \<and> queue (operationSettles (ticket item) out s) = queue s
    \<and> launched (operationSettles (ticket item) out s) = launched s
    \<and> in_flight (operationSettles (ticket item) out s) = removeAll item (in_flight s)
    \<and> isProcessing (operationSettles (ticket item) out s) = isProcessing s
    \<and> timers (operationSettles (ticket item) out s)
        = timers s @ [(requestDelay s / 2, CallProcessQueue)]
    \<and> (\<forall>e. (\<forall>out'. e \<noteq> OperationSettles (ticket item) out')
          \<longrightarrow> settled (step e s) (ticket item) = None)"
proof -
  let ?s' = "operationSettles (ticket item) out s"
  have inv: "scheduler_inv s" using assms(1) by (simp add: inv_reachable)
  from operationSettles_in_flight[OF assms(2), of out]
  obtain item' where i': "item' \<in> set (launched s)" "ticket item' = ticket item"
    "settled s (ticket item) = None" "?s' = executeRequest_settled item' out s"
    by blast
  have st: "settled ?s' t = (if t = ticket item then Some out else settled s t)" for t
    using i' by (simp add: settled_executeRequest_settled)
  have d: "distinct (map ticket (launched s))"
    using inv_distinct[OF inv] by simp
  have l: "item \<in> set (launched s)" using assms(2) by (simp add: in_flight_def)
  have "filter (\<lambda>x. settled ?s' (ticket x) = None) (launched s)
      = filter (\<lambda>x. x \<noteq> item) (filter (\<lambda>x. settled s (ticket x) = None) (launched s))"
    unfolding filter_filter
  proof (rule filter_cong[OF refl])
    fix x assume "x \<in> set (launched s)"
    then have "ticket x = ticket item \<longleftrightarrow> x = item"
      using same_ticket_same_item[OF d _ l] by auto
    then show "(settled ?s' (ticket x) = None) = (settled s (ticket x) = None \<and> x \<noteq> item)"
      using i'(3) by (auto simp: st)
  qed
  then have fl: "in_flight ?s' = removeAll item (in_flight s)"
    using i'(4) by (simp add: in_flight_def removeAll_filter_not_eq) (metis (mono_tags, lifting) filter_cong)
  have others: "\<forall>e. (\<forall>out'. e \<noteq> OperationSettles (ticket item) out')
          \<longrightarrow> settled (step e s) (ticket item) = None"
    using in_flight_unsettled_by_others[OF inv assms(2)] by blast
  show ?thesis
    using st fl others by (simp add: i'(4))
qed

theorem outcome_forwarded_to_own_caller_witness:
  "settled (operationSettles 0 (Rejected (JError ''boom''))
      (run [AddRequest ''a'', AddRequest ''b''] RateLimiter_new)) 0
     = Some (Rejected (JError ''boom''))
   \<and> settled (operationSettles 0 (Rejected (JError ''boom''))
      (run [AddRequest ''a'', AddRequest ''b''] RateLimiter_new)) 1 = None
   \<and> in_flight (operationSettles 0 (Rejected (JError ''boom''))
      (run [AddRequest ''a'', AddRequest ''b''] RateLimiter_new))
     = [\<lparr>rid = ''b'', ticket = 1\<rparr>]
   \<and> settled (step ClearQueue (run [AddRequest ''a'', AddRequest ''b''] RateLimiter_new)) 0 = None"
proof -
  let ?s = "run [AddRequest ''a'', AddRequest ''b''] RateLimiter_new"
  have f: "\<lparr>rid = ''a'', ticket = 0\<rparr> \<in> set (in_flight ?s)"
    by (simp add: run_eval)
  have fl: "in_flight ?s = [\<lparr>rid = ''a'', ticket = 0\<rparr>, \<lparr>rid = ''b'', ticket = 1\<rparr>]"
    and u: "settled ?s 1 = None"
    by (simp_all add: run_eval)
  have t0: "ticket \<lparr>rid = ''a'', ticket = 0\<rparr> = 0" by simp
  note th = outcome_forwarded_to_own_caller[OF refl f, of "Rejected (JError ''boom'')",
      unfolded t0]
  have a: "settled (operationSettles 0 (Rejected (JError ''boom'')) ?s) 0
          = Some (Rejected (JError ''boom''))"
    using th by (rule conjunct1)
  have "(1::nat) \<noteq> 0" by simp
  then have b: "settled (operationSettles 0 (Rejected (JError ''boom'')) ?s) 1 = settled ?s 1"
    using th by blast
  have c: "in_flight (operationSettles 0 (Rejected (JError ''boom'')) ?s)
          = removeAll \<lparr>rid = ''a'', ticket = 0\<rparr> (in_flight ?s)"
    using th by blast
  have "\<forall>out'. ClearQueue \<noteq> OperationSettles 0 out'" by simp
  then have d: "settled (step ClearQueue ?s) 0 = None"
    using th by blast
  show ?thesis using a b c d unfolding fl u by simp
qed

text \<open>
  C5, as amended. The claim as written fails: \<open>addRequest\<close> calls \<open>processQueue\<close>
  directly, and \<open>processQueue\<close> and \<open>executeRequest\<close> run up to their first
  \<open>await\<close> inside that call, which is after \<open>item.request()\<close> has been invoked.
  What holds in every reachable state: the submitted operation is invoked before
  \<open>addRequest\<close> returns exactly when the pending sequence is empty, the loop is not
  active and \<open>activeRequests\<close> is below \<open>maxConcurrent\<close>; in every other case the
  submission is left in the pending sequence. One call of \<open>addRequest\<close> invokes at
  most one operation.
\<close>

theorem submit_invokes_at_once_iff_idle:
  assumes "s = run es RateLimiter_new"
  shows "(\<lparr>rid = i, ticket = nextTicket s\<rparr> \<in> set (launched (addRequest i s)))
           = (queue s = [] \<and> \<not> isProcessing s \<and> of_int (activeRequests s) < maxConcurrent s)
    \<and> (\<lparr>rid = i, ticket = nextTicket s\<rparr> \<in> set (queue (addRequest i s)))
           = (\<not> (queue s = [] \<and> \<not> isProcessing s \<and> of_int (activeRequests s) < maxConcurrent s))
    \<and> length (launched (addRequest i s)) \<le> length (launched s) + 1"
proof -
  let ?new = "\<lparr>rid = i, ticket = nextTicket s\<rparr>"
  have inv: "scheduler_inv s" using assms by (simp add: inv_reachable)
  then have lb: "\<forall>item \<in> set (launched s). ticket item < nextTicket s"
    and q: "ticket ` set (queue s) =
       {t. t < nextTicket s \<and> t \<notin> ticket ` set (launched s) \<and> settled s t = None}"
    by (simp_all add: scheduler_inv_def)
  have nl: "?new \<notin> set (launched s)" using lb by auto
  have nq: "?new \<notin> set (queue s)"
  proof
    assume "?new \<in> set (queue s)"
    then have "ticket ?new \<in> ticket ` set (queue s)" by (rule imageI)
    with q show False by simp
  qed
  show ?thesis
  proof (cases "queue s")
    case Nil
    then show ?thesis using nl by (simp add: launched_addRequest queue_addRequest)
  next
    case (Cons h rest)
    with nq have "h \<noteq> ?new" "?new \<notin> set rest" by auto
    with Cons nl show ?thesis by (auto simp: launched_addRequest queue_addRequest)
  qed
qed

theorem submit_invokes_at_once_iff_idle_witness:
  "\<lparr>rid = ''d'', ticket = 3\<rparr> \<notin> set (launched (addRequest ''d''
       (run [AddRequest ''a'', AddRequest ''b'', AddRequest ''c''] RateLimiter_new)))
   \<and> \<lparr>rid = ''d'', ticket = 3\<rparr> \<in> set (queue (addRequest ''d''
       (run [AddRequest ''a'', AddRequest ''b'', AddRequest ''c''] RateLimiter_new)))
   \<and> \<lparr>rid = ''c'', ticket = 2\<rparr> \<in> set (launched (addRequest ''c''
       (run [AddRequest ''a'', AddRequest ''b''] RateLimiter_new)))"
proof -
  let ?s3 = "run [AddRequest ''a'', AddRequest ''b'', AddRequest ''c''] RateLimiter_new"
  let ?s2 = "run [AddRequest ''a'', AddRequest ''b''] RateLimiter_new"
  have n3: "nextTicket ?s3 = 3" and busy: "\<not> of_int (activeRequests ?s3) < maxConcurrent ?s3"
    by (simp_all add: run_eval)
  have n2: "nextTicket ?s2 = 2"
    and idle: "queue ?s2 = [] \<and> \<not> isProcessing ?s2 \<and> of_int (activeRequests ?s2) < maxConcurrent ?s2"
    by (simp_all add: run_eval)
  from submit_invokes_at_once_iff_idle[OF refl, of "''d''" "[AddRequest ''a'', AddRequest ''b'', AddRequest ''c'']"]
    submit_invokes_at_once_iff_idle[OF refl, of "''c''" "[AddRequest ''a'', AddRequest ''b'']"]
  show ?thesis unfolding n3 n2 using busy idle by blast
qed

text \<open>
  C5 as written is false: on a fresh scheduler (nothing pending, nothing in flight)
  the operation submitted is invoked by the time \<open>addRequest\<close> returns.
\<close>

theorem submit_invokes_counterexample:
  "launched RateLimiter_new = []
   \<and> launched (addRequest ''a'' RateLimiter_new) = [\<lparr>rid = ''a'', ticket = 0\<rparr>]"
  by (simp add: run_eval)

text \<open>
  C8. A turn of the dispatch loop registers the delay \<open>requestDelay\<close> and stays
  active exactly when it has dispatched an item and more items are pending; after
  dispatching the last pending item, or when it dispatches nothing, it registers no
  delay and clears the flag. The completion of an operation in flight, whatever its
  outcome, dispatches nothing itself: it registers a timer of half \<open>requestDelay\<close>,
  whose firing calls \<open>processQueue\<close>; the firing of the loop's own timer continues
  the loop.
\<close>

theorem delays_between_dispatches_and_after_completion:
  "timers (processQueue_loop s) = timers s @
      (if queue s \<noteq> [] \<and> of_int (activeRequests s) < maxConcurrent s \<and> tl (queue s) \<noteq> []
       then [(requestDelay s, ResumeLoop)] else [])
   \<and> isProcessing (processQueue_loop s) =
      (isProcessing s \<and> queue s \<noteq> [] \<and> of_int (activeRequests s) < maxConcurrent s
         \<and> tl (queue s) \<noteq> [])
   \<and> launched (processQueue_loop s) = launched s @
      (if queue s \<noteq> [] \<and> of_int (activeRequests s) < maxConcurrent s
       then [hd (queue s)] else [])
   \<and> (item \<in> set (in_flight s) \<longrightarrow>
        timers (operationSettles (ticket item) out s)
          = timers s @ [(requestDelay s / 2, CallProcessQueue)]
        \<and> launched (operationSettles (ticket item) out s) = launched s
        \<and> queue (operationSettles (ticket item) out s) = queue s
        \<and> isProcessing (operationSettles (ticket item) out s) = isProcessing s)
   \<and> (i < length (timers s) \<and> snd (timers s ! i) = CallProcessQueue \<longrightarrow>
        timerFires i s = processQueue (s\<lparr>timers := take i (timers s) @ drop (Suc i) (timers s)\<rparr>))
   \<and> (i < length (timers s) \<and> snd (timers s ! i) = ResumeLoop \<longrightarrow>
        timerFires i s
          = processQueue_loop (s\<lparr>timers := take i (timers s) @ drop (Suc i) (timers s)\<rparr>))"
proof -
  have loop: "timers (processQueue_loop s) = timers s @
      (if queue s \<noteq> [] \<and> of_int (activeRequests s) < maxConcurrent s \<and> tl (queue s) \<noteq> []
       then [(requestDelay s, ResumeLoop)] else [])
   \<and> isProcessing (processQueue_loop s) =
      (isProcessing s \<and> queue s \<noteq> [] \<and> of_int (activeRequests s) < maxConcurrent s
         \<and> tl (queue s) \<noteq> [])
   \<and> launched (processQueue_loop s) = launched s @
      (if queue s \<noteq> [] \<and> of_int (activeRequests s) < maxConcurrent s
       then [hd (queue s)] else [])"
    by (subst (1 2 3) processQueue_loop_unfold) simp
  have settles: "timers (operationSettles (ticket item) out s)
          = timers s @ [(requestDelay s / 2, CallProcessQueue)]
        \<and> launched (operationSettles (ticket item) out s) = launched s
        \<and> queue (operationSettles (ticket item) out s) = queue s
        \<and> isProcessing (operationSettles (ticket item) out s) = isProcessing s"
    if "item \<in> set (in_flight s)"
    using operationSettles_in_flight[OF that, of out] by auto
  have fires: "(i < length (timers s) \<and> snd (timers s ! i) = CallProcessQueue \<longrightarrow>
        timerFires i s = processQueue (s\<lparr>timers := take i (timers s) @ drop (Suc i) (timers s)\<rparr>))
   \<and> (i < length (timers s) \<and> snd (timers s ! i) = ResumeLoop \<longrightarrow>
        timerFires i s
          = processQueue_loop (s\<lparr>timers := take i (timers s) @ drop (Suc i) (timers s)\<rparr>))"
    by (simp add: timerFires_def)
  from loop settles fires show ?thesis by blast
qed

theorem delays_between_dispatches_and_after_completion_witness:
  "timers (operationSettles 0 (Fulfilled (JNum 1))
      (run [UpdateSettings \<lparr>set_requestDelay = Some 300, set_maxConcurrent = Some 1\<rparr>,
            AddRequest ''a'', AddRequest ''b'', AddRequest ''c''] RateLimiter_new))
     = [(150, CallProcessQueue)]
   \<and> timers (timerFires 0
      (run [UpdateSettings \<lparr>set_requestDelay = Some 300, set_maxConcurrent = Some 1\<rparr>,
            AddRequest ''a'', AddRequest ''b'', AddRequest ''c'',
            OperationSettles 0 (Fulfilled (JNum 1))] RateLimiter_new))
     = [(300, ResumeLoop)]
   \<and> timers (timerFires 0
      (run [UpdateSettings \<lparr>set_requestDelay = Some 300, set_maxConcurrent = Some 1\<rparr>,
            AddRequest ''a'', AddRequest ''b'', AddRequest ''c'',
            OperationSettles 0 (Fulfilled (JNum 1)), TimerFires 0,
            OperationSettles 1 (Fulfilled (JNum 2))] RateLimiter_new))
     = [(150, CallProcessQueue)]"
proof -
  let ?s0 = "run [UpdateSettings \<lparr>set_requestDelay = Some 300, set_maxConcurrent = Some 1\<rparr>,
            AddRequest ''a'', AddRequest ''b'', AddRequest ''c''] RateLimiter_new"
  let ?s1 = "run [UpdateSettings \<lparr>set_requestDelay = Some 300, set_maxConcurrent = Some 1\<rparr>,
            AddRequest ''a'', AddRequest ''b'', AddRequest ''c'',
            OperationSettles 0 (Fulfilled (JNum 1))] RateLimiter_new"
  let ?s2 = "run [UpdateSettings \<lparr>set_requestDelay = Some 300, set_maxConcurrent = Some 1\<rparr>,
            AddRequest ''a'', AddRequest ''b'', AddRequest ''c'',
            OperationSettles 0 (Fulfilled (JNum 1)), TimerFires 0,
            OperationSettles 1 (Fulfilled (JNum 2))] RateLimiter_new"
  have f: "\<lparr>rid = ''a'', ticket = 0\<rparr> \<in> set (in_flight ?s0)"
    and t0: "timers ?s0 = []" and d0: "requestDelay ?s0 = 300"
    by (simp_all add: run_eval)
  have c1: "0 < length (timers ?s1) \<and> snd (timers ?s1 ! 0) = CallProcessQueue"
    by (simp add: run_eval)
  have r2: "0 < length (timers ?s2) \<and> snd (timers ?s2 ! 0) = ResumeLoop"
    by (simp add: run_eval)
  have "timers (operationSettles (ticket \<lparr>rid = ''a'', ticket = 0\<rparr>) (Fulfilled (JNum 1)) ?s0)
      = timers ?s0 @ [(requestDelay ?s0 / 2, CallProcessQueue)]"
    using delays_between_dispatches_and_after_completion
      [of ?s0 "\<lparr>rid = ''a'', ticket = 0\<rparr>" "Fulfilled (JNum 1)" 0] f
    by blast
  then have a: "timers (operationSettles 0 (Fulfilled (JNum 1)) ?s0) = [(150, CallProcessQueue)]"
    unfolding t0 d0 by simp
  have b: "timerFires 0 ?s1
      = processQueue (?s1\<lparr>timers := take 0 (timers ?s1) @ drop (Suc 0) (timers ?s1)\<rparr>)"
    using delays_between_dispatches_and_after_completion
      [of ?s1 "\<lparr>rid = ''a'', ticket = 0\<rparr>" "Fulfilled (JNum 1)" 0] c1
    by blast
  have c: "timerFires 0 ?s2
      = processQueue_loop (?s2\<lparr>timers := take 0 (timers ?s2) @ drop (Suc 0) (timers ?s2)\<rparr>)"
    using delays_between_dispatches_and_after_completion
      [of ?s2 "\<lparr>rid = ''a'', ticket = 0\<rparr>" "Fulfilled (JNum 1)" 0] r2
    by blast
  have b': "timers (processQueue (?s1\<lparr>timers := take 0 (timers ?s1) @ drop (Suc 0) (timers ?s1)\<rparr>))
      = [(300, ResumeLoop)]"
    by (simp add: run_eval)
  have c': "timers (processQueue_loop (?s2\<lparr>timers := take 0 (timers ?s2) @ drop (Suc 0) (timers ?s2)\<rparr>))
      = [(150, CallProcessQueue)]"
    by (simp add: run_eval)
  show ?thesis
    unfolding b c using a b' c' by simp
qed

text \<open>
  C9. In every reachable state \<open>getStatus\<close> leaves the state as it is and returns
  a snapshot whose \<open>activeRequests\<close> is the number of operations invoked and not
  yet settled, whose \<open>queueLength\<close> is the number of submissions pending, and whose
  \<open>isProcessing\<close> is the loop flag.
\<close>

theorem getStatus_snapshot:
  "snd (getStatus (run es RateLimiter_new)) = run es RateLimiter_new
   \<and> st_activeRequests (fst (getStatus (run es RateLimiter_new)))
       = int (length (in_flight (run es RateLimiter_new)))
   \<and> queueLength (fst (getStatus (run es RateLimiter_new)))
       = length (pending (run es RateLimiter_new))
   \<and> st_isProcessing (fst (getStatus (run es RateLimiter_new)))
       = isProcessing (run es RateLimiter_new)"
proof -
  let ?s = "run es RateLimiter_new"
  have inv: "scheduler_inv ?s" by (rule inv_reachable)
  then have q: "ticket ` set (queue ?s) =
       {t. t < nextTicket ?s \<and> t \<notin> ticket ` set (launched ?s) \<and> settled ?s t = None}"
    and a: "activeRequests ?s = int (length (in_flight ?s))"
    by (simp_all add: scheduler_inv_def)
  have d: "distinct (map ticket (queue ?s))"
    using inv_distinct[OF inv] by simp
  have dp: "distinct (pending ?s)" by (simp add: pending_def)
  have "set (map ticket (queue ?s)) = set (pending ?s)"
    using q by (auto simp: pending_def)
  then have "card (set (map ticket (queue ?s))) = card (set (pending ?s))" by simp
  then have "length (map ticket (queue ?s)) = length (pending ?s)"
    using d dp by (simp only: distinct_card)
  then show ?thesis using a by (simp add: getStatus_def)
qed

theorem getStatus_snapshot_witness:
  "getStatus (run [UpdateSettings \<lparr>set_requestDelay = None, set_maxConcurrent = Some 2\<rparr>,
       AddRequest ''a'', AddRequest ''b'', AddRequest ''c'', AddRequest ''d'',
       OperationSettles 1 (Rejected (JError ''boom'')), ClearQueue, AddRequest ''e'', AddRequest ''f''] RateLimiter_new)
   = (\<lparr>queueLength = 1, st_activeRequests = 2, st_isProcessing = False\<rparr>,
      run [UpdateSettings \<lparr>set_requestDelay = None, set_maxConcurrent = Some 2\<rparr>,
       AddRequest ''a'', AddRequest ''b'', AddRequest ''c'', AddRequest ''d'',
       OperationSettles 1 (Rejected (JError ''boom'')), ClearQueue, AddRequest ''e'', AddRequest ''f''] RateLimiter_new)
   \<and> in_flight (run [UpdateSettings \<lparr>set_requestDelay = None, set_maxConcurrent = Some 2\<rparr>,
       AddRequest ''a'', AddRequest ''b'', AddRequest ''c'', AddRequest ''d'',
       OperationSettles 1 (Rejected (JError ''boom'')), ClearQueue, AddRequest ''e'', AddRequest ''f''] RateLimiter_new)
     = [\<lparr>rid = ''a'', ticket = 0\<rparr>, \<lparr>rid = ''e'', ticket = 4\<rparr>]
   \<and> pending (run [UpdateSettings \<lparr>set_requestDelay = None, set_maxConcurrent = Some 2\<rparr>,
       AddRequest ''a'', AddRequest ''b'', AddRequest ''c'', AddRequest ''d'',
       OperationSettles 1 (Rejected (JError ''boom'')), ClearQueue, AddRequest ''e'', AddRequest ''f''] RateLimiter_new)
     = [5]"
  using getStatus_snapshot[of "[UpdateSettings \<lparr>set_requestDelay = None, set_maxConcurrent = Some 2\<rparr>,
       AddRequest ''a'', AddRequest ''b'', AddRequest ''c'', AddRequest ''d'',
       OperationSettles 1 (Rejected (JError ''boom'')), ClearQueue, AddRequest ''e'', AddRequest ''f'']"]
  by (simp add: run_eval getStatus_def pending_def upt_rec)

text \<open>
  C10. A freshly constructed scheduler has a delay of 200 milliseconds, a ceiling of 3,
  nothing pending, nothing in flight and an inactive loop; \<open>updateSettings\<close> changes
  only the settings that its argument provides, and leaves the other setting, the
  pending sequence, the counter of requests in flight and the loop flag as they were.
\<close>

theorem fresh_scheduler_and_updateSettings_frame:
  "requestDelay RateLimiter_new = 200 \<and> maxConcurrent RateLimiter_new = 3
   \<and> queue RateLimiter_new = [] \<and> activeRequests RateLimiter_new = 0
   \<and> isProcessing RateLimiter_new = False
   \<and> requestDelay (updateSettings settings s)
       = (case set_requestDelay settings of Some d \<Rightarrow> d | None \<Rightarrow> requestDelay s)
   \<and> maxConcurrent (updateSettings settings s)
       = (case set_maxConcurrent settings of Some m \<Rightarrow> m | None \<Rightarrow> maxConcurrent s)
   \<and> queue (updateSettings settings s) = queue s
   \<and> activeRequests (updateSettings settings s) = activeRequests s
   \<and> isProcessing (updateSettings settings s) = isProcessing s
   \<and> launched (updateSettings settings s) = launched s
   \<and> settlements (updateSettings settings s) = settlements s
   \<and> timers (updateSettings settings s) = timers s"
  by (simp add: RateLimiter_new_def updateSettings_def split: option.splits)

subsection \<open>Navigator\<close>

text \<open>
  C6, as amended. The claim as written fails: the hook never checks that \<open>id\<close> is
  an integer. What holds: the effect never lets an error reach the host; when \<open>id\<close>
  is absent or empty, or \<open>action\<close> is absent or is neither \<open>view\<close> nor
  \<open>detail\<close>, it fetches nothing and calls nothing; when \<open>id\<close> is present and not
  empty and \<open>action\<close> is one of the two, it calls \<open>getEntityById(parseInt(id))\<close>,
  with \<open>NaN\<close> when \<open>id\<close> does not start with an integer, and a callback is
  called exactly when that fetch resolves with \<open>success\<close> and a truthy payload.
\<close>

theorem navigation_without_integer_check:
  "fst (useEntityUrlNavigation config search) = Inr ()
   \<and> (searchParams_get (URLSearchParams search) ''id'' = None
       \<or> searchParams_get (URLSearchParams search) ''id'' = Some []
       \<or> searchParams_get (URLSearchParams search) ''action'' \<notin> {Some ''view'', Some ''detail''}
      \<longrightarrow> snd (useEntityUrlNavigation config search) = [])
   \<and> (searchParams_get (URLSearchParams search) ''id'' = Some entityId \<and> entityId \<noteq> []
       \<and> searchParams_get (URLSearchParams search) ''action'' \<in> {Some ''view'', Some ''detail''}
      \<longrightarrow> take 1 (snd (useEntityUrlNavigation config search))
            = [CallGetEntityById (parseInt entityId)]
          \<and> (filter is_callback (snd (useEntityUrlNavigation config search)) \<noteq> [])
             = (\<exists>r payload. getEntityById config (parseInt entityId) = Resolves r
                  \<and> success r \<and> data r = Some payload \<and> ToBoolean payload))"
proof -
  have a: "fst (useEntityUrlNavigation config search) = Inr ()"
    by (simp add: useEntityUrlNavigation_def Let_def loadSpecificEntity_no_error
        split: option.splits)
  have b: "snd (useEntityUrlNavigation config search) = []"
    if "searchParams_get (URLSearchParams search) ''id'' = None
       \<or> searchParams_get (URLSearchParams search) ''id'' = Some []
       \<or> searchParams_get (URLSearchParams search) ''action'' \<notin> {Some ''view'', Some ''detail''}"
    using navigation_skips[OF that, of config] by simp
  have c: "take 1 (snd (useEntityUrlNavigation config search))
            = [CallGetEntityById (parseInt entityId)]
          \<and> (filter is_callback (snd (useEntityUrlNavigation config search)) \<noteq> [])
             = (\<exists>r payload. getEntityById config (parseInt entityId) = Resolves r
                  \<and> success r \<and> data r = Some payload \<and> ToBoolean payload)"
    if "searchParams_get (URLSearchParams search) ''id'' = Some entityId \<and> entityId \<noteq> []
       \<and> searchParams_get (URLSearchParams search) ''action'' \<in> {Some ''view'', Some ''detail''}"
  proof -
    have "useEntityUrlNavigation config search = loadSpecificEntity config entityId"
      using that by (intro navigation_loads) simp_all
    then show ?thesis
      by (simp only: loadSpecificEntity_fetches loadSpecificEntity_callbacks simp_thms)
  qed
  from a b c show ?thesis by blast
qed

theorem navigation_without_integer_check_witness:
  "useEntityUrlNavigation
      \<lparr>getEntityById = (\<lambda>i. if i = None then Rejects (JError ''400'')
                             else Resolves \<lparr>success = True, data = Some (JObject [(''id'', JNum 1)])\<rparr>),
       onEntityLoaded = (\<lambda>entity. Returns),
       onAdditionalAction = Some (\<lambda>entity entityId. Returns)\<rparr> ''?action=view''
     = (Inr (), [])
   \<and> fst (useEntityUrlNavigation
      \<lparr>getEntityById = (\<lambda>i. if i = None then Rejects (JError ''400'')
                             else Resolves \<lparr>success = True, data = Some (JObject [(''id'', JNum 1)])\<rparr>),
       onEntityLoaded = (\<lambda>entity. Returns),
       onAdditionalAction = Some (\<lambda>entity entityId. Returns)\<rparr> ''?id=abc&action=view'') = Inr ()
   \<and> take 1 (snd (useEntityUrlNavigation
      \<lparr>getEntityById = (\<lambda>i. if i = None then Rejects (JError ''400'')
                             else Resolves \<lparr>success = True, data = Some (JObject [(''id'', JNum 1)])\<rparr>),
       onEntityLoaded = (\<lambda>entity. Returns),
       onAdditionalAction = Some (\<lambda>entity entityId. Returns)\<rparr> ''?id=abc&action=view''))
     = [CallGetEntityById None]
   \<and> filter is_callback (snd (useEntityUrlNavigation
      \<lparr>getEntityById = (\<lambda>i. if i = None then Rejects (JError ''400'')
                             else Resolves \<lparr>success = True, data = Some (JObject [(''id'', JNum 1)])\<rparr>),
       onEntityLoaded = (\<lambda>entity. Returns),
       onAdditionalAction = Some (\<lambda>entity entityId. Returns)\<rparr> ''?id=abc&action=view'')) = []"
proof -
  let ?config = "\<lparr>getEntityById = (\<lambda>i. if i = None then Rejects (JError ''400'')
                             else Resolves \<lparr>success = True, data = Some (JObject [(''id'', JNum 1)])\<rparr>),
       onEntityLoaded = (\<lambda>entity. Returns),
       onAdditionalAction = Some (\<lambda>entity entityId. Returns)\<rparr>"
  have no_id: "searchParams_get (URLSearchParams ''?action=view'') ''id'' = None"
    by (simp add: nav_eval)
  have id: "searchParams_get (URLSearchParams ''?id=abc&action=view'') ''id'' = Some ''abc''
      \<and> ''abc'' \<noteq> []
      \<and> searchParams_get (URLSearchParams ''?id=abc&action=view'') ''action''
          \<in> {Some ''view'', Some ''detail''}"
    by (simp add: nav_eval)
  have nan: "parseInt ''abc'' = None"
    by (simp add: nav_eval)
  have rejected: "\<not> (\<exists>r payload. getEntityById ?config None = Resolves r
      \<and> success r \<and> data r = Some payload \<and> ToBoolean payload)"
    by simp
  have a: "snd (useEntityUrlNavigation ?config ''?action=view'') = []"
    and a': "fst (useEntityUrlNavigation ?config ''?action=view'') = Inr ()"
    using navigation_without_integer_check[of ?config "''?action=view''" "''abc''"] no_id
    by blast+
  have b: "fst (useEntityUrlNavigation ?config ''?id=abc&action=view'') = Inr ()"
    and c: "take 1 (snd (useEntityUrlNavigation ?config ''?id=abc&action=view''))
        = [CallGetEntityById (parseInt ''abc'')]"
    and e: "(filter is_callback (snd (useEntityUrlNavigation ?config ''?id=abc&action=view'')) \<noteq> [])
        = (\<exists>r payload. getEntityById ?config (parseInt ''abc'') = Resolves r
            \<and> success r \<and> data r = Some payload \<and> ToBoolean payload)"
    using navigation_without_integer_check[of ?config "''?id=abc&action=view''" "''abc''"] id
    by blast+
  have "useEntityUrlNavigation ?config ''?action=view'' = (Inr (), [])"
    using a a' by (simp add: prod_eq_iff)
  moreover have "filter is_callback (snd (useEntityUrlNavigation ?config ''?id=abc&action=view'')) = []"
    using e rejected unfolding nan by blast
  ultimately show ?thesis
    using b c unfolding nan by blast
qed

text \<open>
  C6 as written is false: with \<open>?id=12abc&action=view\<close> the \<open>id\<close> is not an
  integer, yet \<open>parseInt\<close> reads 12 and both callbacks fire for entity 12; and with
  \<open>?id=abc&action=view\<close> the fetch is still made, with \<open>NaN\<close>, and both callbacks
  fire when it answers with a payload.
\<close>

theorem non_integer_id_counterexample:
  "useEntityUrlNavigation
      \<lparr>getEntityById = (\<lambda>i. if i = Some 12
                             then Resolves \<lparr>success = True, data = Some (JObject [(''id'', JNum 12)])\<rparr>
                             else Resolves \<lparr>success = False, data = None\<rparr>),
       onEntityLoaded = (\<lambda>entity. Returns),
       onAdditionalAction = Some (\<lambda>entity entityId. Returns)\<rparr> ''?id=12abc&action=view''
     = (Inr (), [CallGetEntityById (Some 12), CallOnEntityLoaded (JObject [(''id'', JNum 12)]),
                 CallOnAdditionalAction (JObject [(''id'', JNum 12)]) (Some 12)])
   \<and> useEntityUrlNavigation
      \<lparr>getEntityById = (\<lambda>i. Resolves \<lparr>success = True, data = Some (JObject [(''id'', JNum 1)])\<rparr>),
       onEntityLoaded = (\<lambda>entity. Returns),
       onAdditionalAction = Some (\<lambda>entity entityId. Returns)\<rparr> ''?id=abc&action=view''
     = (Inr (), [CallGetEntityById None, CallOnEntityLoaded (JObject [(''id'', JNum 1)]),
                 CallOnAdditionalAction (JObject [(''id'', JNum 1)]) None])"
  by (simp add: nav_eval)

text \<open>
  C7, as amended. The claim as written fails: both callbacks are called inside the
  \<open>try\<close> block, so an exception thrown by \<open>onEntityLoaded\<close> is caught and logged
  and \<open>onAdditionalAction\<close> is not called; and the test \<open>response.data\<close> treats a
  falsy payload as not found. What holds: when the query string has an \<open>id\<close> that
  \<open>parseInt\<close> reads as the integer \<open>n\<close> and an \<open>action\<close> equal to
  \<open>view\<close> or \<open>detail\<close>, \<open>getEntityById(n)\<close> resolves with \<open>success\<close> and a
  truthy payload, and \<open>onEntityLoaded(payload)\<close> returns normally, the effect calls
  \<open>getEntityById(n)\<close>, then \<open>onEntityLoaded(payload)\<close> once, then, if it is
  provided, \<open>onAdditionalAction(payload, n)\<close> once, and no callback besides; an
  exception thrown by \<open>onAdditionalAction\<close> is logged, and no error reaches the host.
\<close>

theorem navigation_on_successful_fetch:
  assumes "searchParams_get (URLSearchParams search) ''id'' = Some entityId"
    and "parseInt entityId = Some n"
    and "searchParams_get (URLSearchParams search) ''action'' = Some action"
    and "action = ''view'' \<or> action = ''detail''"
    and "getEntityById config (Some n) = Resolves \<lparr>success = True, data = Some payload\<rparr>"
    and "ToBoolean payload"
    and "onEntityLoaded config payload = Returns"
  shows "useEntityUrlNavigation config search =
           (Inr (),
            [CallGetEntityById (Some n), CallOnEntityLoaded payload]
            @ (case onAdditionalAction config of
                 None \<Rightarrow> []
               | Some additional \<Rightarrow>
                   CallOnAdditionalAction payload (Some n)
                   # (case additional payload (Some n) of
                        Returns \<Rightarrow> [] | Throws err \<Rightarrow> [ConsoleError err])))"
proof -
  have "entityId \<noteq> []" using assms(2) by (auto simp: parseInt_def)
  with assms(1,3,4) have "useEntityUrlNavigation config search = loadSpecificEntity config entityId"
    by (intro navigation_loads) auto
  with assms(2,5,6,7) show ?thesis
    by (simp add: loadSpecificEntity_def loadSpecificEntity_try_def
        split: option.splits completion.splits)
qed

theorem navigation_on_successful_fetch_witness:
  "useEntityUrlNavigation
      \<lparr>getEntityById = (\<lambda>i. if i = Some 7
                             then Resolves \<lparr>success = True, data = Some (JObject [(''id'', JNum 7)])\<rparr>
                             else Resolves \<lparr>success = False, data = None\<rparr>),
       onEntityLoaded = (\<lambda>entity. Returns),
       onAdditionalAction = Some (\<lambda>entity entityId. Returns)\<rparr> ''?id=7&action=view''
   = (Inr (), [CallGetEntityById (Some 7), CallOnEntityLoaded (JObject [(''id'', JNum 7)]),
               CallOnAdditionalAction (JObject [(''id'', JNum 7)]) (Some 7)])"
proof -
  let ?config = "\<lparr>getEntityById = (\<lambda>i. if i = Some 7
                             then Resolves \<lparr>success = True, data = Some (JObject [(''id'', JNum 7)])\<rparr>
                             else Resolves \<lparr>success = False, data = None\<rparr>),
       onEntityLoaded = (\<lambda>entity. Returns),
       onAdditionalAction = Some (\<lambda>entity entityId. Returns)\<rparr>"
  have h1: "searchParams_get (URLSearchParams ''?id=7&action=view'') ''id'' = Some ''7''"
    by (simp add: nav_eval)
  have h2: "parseInt ''7'' = Some 7" by (simp add: nav_eval)
  have h3: "searchParams_get (URLSearchParams ''?id=7&action=view'') ''action'' = Some ''view''"
    by (simp add: nav_eval)
  have h4: "''view'' = ''view'' \<or> ''view'' = ''detail''" by simp
  have h5: "getEntityById ?config (Some 7)
      = Resolves \<lparr>success = True, data = Some (JObject [(''id'', JNum 7)])\<rparr>"
    by simp
  have h6: "ToBoolean (JObject [(''id'', JNum 7)])" by simp
  have h7: "onEntityLoaded ?config (JObject [(''id'', JNum 7)]) = Returns" by simp
  show ?thesis
    using navigation_on_successful_fetch[OF h1 h2 h3 h4 h5 h6 h7] by simp
qed

text \<open>
  C7 as written is false: with \<open>?id=7&action=view\<close> and \<open>getEntityById(7)\<close>
  resolving with \<open>success\<close> and the entity, an \<open>onEntityLoaded\<close> that throws is
  called, the error is logged, and \<open>onAdditionalAction\<close>, though provided, is not
  called; and when the fetch resolves with \<open>success\<close> and the payload 0, no callback
  is called at all.
\<close>

theorem successful_fetch_counterexample:
  "useEntityUrlNavigation
      \<lparr>getEntityById = (\<lambda>i. if i = Some 7
                             then Resolves \<lparr>success = True, data = Some (JObject [(''id'', JNum 7)])\<rparr>
                             else Resolves \<lparr>success = False, data = None\<rparr>),
       onEntityLoaded = (\<lambda>entity. Throws (JError ''cannot show'')),
       onAdditionalAction = Some (\<lambda>entity entityId. Returns)\<rparr> ''?id=7&action=view''
     = (Inr (), [CallGetEntityById (Some 7), CallOnEntityLoaded (JObject [(''id'', JNum 7)]),
                 ConsoleError (JError ''cannot show'')])
   \<and> useEntityUrlNavigation
      \<lparr>getEntityById = (\<lambda>i. Resolves \<lparr>success = True, data = Some (JNum 0)\<rparr>),
       onEntityLoaded = (\<lambda>entity. Returns),
       onAdditionalAction = Some (\<lambda>entity entityId. Returns)\<rparr> ''?id=7&action=view''
     = (Inr (), [CallGetEntityById (Some 7), ConsoleWarn ''7''])"
  by (simp add: nav_eval)

end
